theory Spec2Isabelle
  imports Main "HOL-Library.Sublist"
begin

section \<open>The document assembler (generator/template/markup.go)\<close>

subsection \<open>Data model\<close>

text \<open>
  The tag records come from the markup package. The assembler reads a tag's
  \<open>Name\<close>, its \<open>Attributes\<close> (each with \<open>Name\<close> and \<open>Value\<close>) and its
  \<open>Body\<close>, a pointer that is nil when the tag has no body and that otherwise
  carries \<open>Content\<close> and \<open>Inline\<close>.
\<close>

record BodyNode =
  Content :: string
  Inline :: bool

record AttrNode =
  AttrName :: string
  AttrValue :: string

record TagNode =
  Name :: string
  Attributes :: "AttrNode list"
  TagBody :: "BodyNode option"

record Parser =
  Tags :: "TagNode list"

text \<open>\<open>vars\<close> holds variables in their original order: a slice of pairs.\<close>

type_synonym vars = "(string \<times> string) list"

record Markup =
  Filename :: string
  Skip :: string
  Body :: string
  Vars :: vars
  Partials :: "string \<rightharpoonup> string"

text \<open>
  Every \<open>log.Printf\<close> of the assembler is one diagnostic. The constructors keep
  the arguments of the format string, in the order of the call.
\<close>

datatype diagnostic =
    PartialExists string
  | VariableExists string
  | MissingBody string string
  | MissingAttribute string string

datatype error = errSkipTag

type_synonym state = "Markup \<times> diagnostic list"

definition tagFilename :: string where "tagFilename = ''filename''"
definition tagSkip :: string where "tagSkip = ''skipif''"
definition tagTemplate :: string where "tagTemplate = ''template''"
definition tagPartial :: string where "tagPartial = ''partial''"
definition tagVariable :: string where "tagVariable = ''variable''"
definition attrName :: string where "attrName = ''name''"

subsection \<open>Operations\<close>

text \<open>\<open>vars.find\<close>: the index of the first pair whose key is \<open>key\<close>, or \<open>-1\<close>.\<close>

fun find_from :: "vars \<Rightarrow> string \<Rightarrow> int \<Rightarrow> int" where
  "find_from [] key i = -1"
| "find_from (val # v) key i = (if fst val = key then i else find_from v key (i + 1))"

definition vars_find :: "vars \<Rightarrow> string \<Rightarrow> int" where
  "vars_find v key = find_from v key 0"

definition newMarkup :: Markup where
  "newMarkup = \<lparr>Filename = [], Skip = [], Body = [], Vars = [], Partials = Map.empty\<rparr>"

definition setPartial :: "string \<Rightarrow> string \<Rightarrow> state \<Rightarrow> state" where
  "setPartial name val st =
     (case st of (m, lg) \<Rightarrow>
        let lg' = (if Partials m name \<noteq> None then lg @ [PartialExists name] else lg)
        in (m\<lparr>Partials := (Partials m)(name \<mapsto> val)\<rparr>, lg'))"

definition setVar :: "string \<Rightarrow> string \<Rightarrow> state \<Rightarrow> state" where
  "setVar name val st =
     (case st of (m, lg) \<Rightarrow>
        let i = vars_find (Vars m) name
        in if i \<noteq> -1
           then (m\<lparr>Vars := (Vars m)[nat i := (name, val)]\<rparr>, lg @ [VariableExists name])
           else (m\<lparr>Vars := Vars m @ [(name, val)]\<rparr>, lg))"

text \<open>
  \<open>parseTagNameAttr\<close>: the loop overwrites \<open>name\<close> at every attribute called
  \<open>name\<close>, so the last one stays.
\<close>

definition lastNameAttr :: "AttrNode list \<Rightarrow> string" where
  "lastNameAttr attrs =
     foldl (\<lambda>name attr. if AttrName attr = attrName then AttrValue attr else name) [] attrs"

definition parseTagNameAttr :: "TagNode \<Rightarrow> diagnostic list \<Rightarrow> (error + string) \<times> diagnostic list" where
  "parseTagNameAttr tag lg =
     (let name = lastNameAttr (Attributes tag)
      in if length name = 0
         then (Inl errSkipTag, lg @ [MissingAttribute (Name tag) attrName])
         else (Inr name, lg))"

definition parseBody :: "TagNode \<Rightarrow> string" where
  "parseBody tag = (case TagBody tag of None \<Rightarrow> [] | Some b \<Rightarrow> Content b)"

text \<open>
  \<open>wrapInlineScript\<close> is declared outside the files at hand; the assembler only
  calls it, so it is a parameter of the model.
\<close>

definition parseScriptBody :: "(string \<Rightarrow> string) \<Rightarrow> TagNode \<Rightarrow> string" where
  "parseScriptBody wrapInlineScript tag =
     (case TagBody tag of
        None \<Rightarrow> []
      | Some b \<Rightarrow> if Inline b then wrapInlineScript (Content b) else Content b)"

text \<open>One iteration of the loop of \<open>parse\<close>: the switch on the tag's name.\<close>

definition parseTag :: "(string \<Rightarrow> string) \<Rightarrow> state \<Rightarrow> TagNode \<Rightarrow> state" where
  "parseTag wrapInlineScript st tag =
     (case st of (m, lg) \<Rightarrow>
        if Name tag = tagFilename then (m\<lparr>Filename := parseScriptBody wrapInlineScript tag\<rparr>, lg)
        else if Name tag = tagSkip then (m\<lparr>Skip := parseScriptBody wrapInlineScript tag\<rparr>, lg)
        else if Name tag = tagTemplate then (m\<lparr>Body := parseBody tag\<rparr>, lg)
        else if Name tag = tagPartial \<or> Name tag = tagVariable then
          (case parseTagNameAttr tag lg of
             (Inl err, lg') \<Rightarrow> (m, lg')
           | (Inr name, lg') \<Rightarrow>
               if TagBody tag = None then (m, lg' @ [MissingBody (Name tag) name])
               else if Name tag = tagPartial then setPartial name (parseBody tag) (m, lg')
               else if Name tag = tagVariable
                 then setVar name (parseScriptBody wrapInlineScript tag) (m, lg')
               else (m, lg'))
        else (m, lg))"

definition parseTags :: "(string \<Rightarrow> string) \<Rightarrow> TagNode list \<Rightarrow> state" where
  "parseTags wrapInlineScript tags = foldl (parseTag wrapInlineScript) (newMarkup, []) tags"

definition parse :: "(string \<Rightarrow> string) \<Rightarrow> Parser \<Rightarrow> state" where
  "parse wrapInlineScript p = parseTags wrapInlineScript (Tags p)"

subsection \<open>Vocabulary for the statements about the assembler\<close>

text \<open>
  A tag defines the variable \<open>n\<close> when the loop of \<open>parse\<close> reaches \<open>setVar\<close> with
  the name \<open>n\<close>: the tag is called \<open>variable\<close>, the last \<open>name\<close> attribute is the
  non-empty \<open>n\<close>, and the body is present.
\<close>

definition definesVariable :: "TagNode \<Rightarrow> string \<Rightarrow> bool" where
  "definesVariable tag n =
     (Name tag = tagVariable \<and> TagBody tag \<noteq> None \<and> n \<noteq> [] \<and> lastNameAttr (Attributes tag) = n)"

definition definedVariables :: "TagNode list \<Rightarrow> string list" where
  "definedVariables tags =
     map (\<lambda>t. lastNameAttr (Attributes t))
       (filter (\<lambda>t. definesVariable t (lastNameAttr (Attributes t))) tags)"

text \<open>The names of a list in the order of their first occurrences.\<close>

definition firstSeen :: "string list \<Rightarrow> string list" where
  "firstSeen names = rev (remdups (rev names))"

text \<open>The last tag of a sequence that carries a given name.\<close>

definition lastTagNamed :: "string \<Rightarrow> TagNode list \<Rightarrow> TagNode option" where
  "lastTagNamed nm tags =
     (let named = filter (\<lambda>t. Name t = nm) tags
      in if named = [] then None else Some (last named))"

section \<open>The file-tree runner: \<open>joinWithinRoot\<close>\<close>

subsection \<open>The library functions it calls\<close>

text \<open>
  \<open>joinWithinRoot\<close> calls \<open>strings.Split\<close>, \<open>strings.Join\<close>, \<open>filepath.Clean\<close> and
  \<open>filepath.Join\<close> of the Go standard library. They are modelled for a target whose
  \<open>filepath.Separator\<close> is the slash and that has no volume names.
\<close>

definition Separator :: char where
  "Separator = CHR ''/''"

text \<open>
  \<open>strings.Split(s, sep)\<close> for a separator of one character: the pieces between the
  occurrences of the separator, one more than there are occurrences.
\<close>

fun splitFrom :: "char \<Rightarrow> string \<Rightarrow> string \<Rightarrow> string list" where
  "splitFrom c piece [] = [piece]"
| "splitFrom c piece (x # xs) =
     (if x = c then piece # splitFrom c [] xs else splitFrom c (piece @ [x]) xs)"

definition strings_Split :: "string \<Rightarrow> char \<Rightarrow> string list" where
  "strings_Split s c = splitFrom c [] s"

fun strings_Join :: "string list \<Rightarrow> char \<Rightarrow> string" where
  "strings_Join [] c = []"
| "strings_Join [p] c = p"
| "strings_Join (p # q # ps) c = p @ c # strings_Join (q # ps) c"

definition isRooted :: "string \<Rightarrow> bool" where
  "isRooted path = (case path of [] \<Rightarrow> False | c # _ \<Rightarrow> c = Separator)"

text \<open>
  \<open>filepath.Clean\<close>, over the elements of the path as its documentation states it: empty
  elements and \<open>.\<close> are dropped; \<open>..\<close> removes the element written before it when there is
  one that is not itself \<open>..\<close>, is dropped at the beginning of a rooted path, and is kept at
  the beginning of a path that is not rooted. The result is the kept elements joined by single
  separators, after the leading separator of a rooted path; an empty result is \<open>.\<close>.
\<close>

fun cleanElems :: "bool \<Rightarrow> string list \<Rightarrow> string list \<Rightarrow> string list" where
  "cleanElems rooted out [] = out"
| "cleanElems rooted out (e # es) =
     (if e = [] \<or> e = ''.'' then cleanElems rooted out es
      else if e = ''..'' then
        (if out \<noteq> [] \<and> last out \<noteq> ''..'' then cleanElems rooted (butlast out) es
         else if \<not> rooted then cleanElems rooted (out @ [''..'']) es
         else cleanElems rooted out es)
      else cleanElems rooted (out @ [e]) es)"

definition filepath_Clean :: "string \<Rightarrow> string" where
  "filepath_Clean path =
     (if path = [] then ''.''
      else let out = cleanElems (isRooted path) [] (strings_Split path Separator)
           in if isRooted path then Separator # strings_Join out Separator
              else if out = [] then ''.''
              else strings_Join out Separator)"

text \<open>
  \<open>filepath.Join\<close> of two elements: the elements from the first non-empty one on are joined
  with the separator and cleaned; when both are empty the result is empty.
\<close>

definition filepath_Join :: "string \<Rightarrow> string \<Rightarrow> string" where
  "filepath_Join a b =
     (if a \<noteq> [] then filepath_Clean (a @ Separator # b)
      else if b \<noteq> [] then filepath_Clean b
      else [])"

subsection \<open>\<open>joinWithinRoot\<close>\<close>

text \<open>
  The loop ranges over the slice \<open>parts\<close> as it was before the loop, and reassigns the
  variable \<open>parts\<close> to \<open>parts[1:]\<close> for every leading \<open>..\<close>; the first other element ends
  the loop.
\<close>

fun stripLoop :: "string list \<Rightarrow> string list \<Rightarrow> string list" where
  "stripLoop [] parts = parts"
| "stripLoop (part # rest) parts =
     (if part \<noteq> ''..'' then parts else stripLoop rest (drop 1 parts))"

definition joinWithinRoot :: "string \<Rightarrow> string \<Rightarrow> string" where
  "joinWithinRoot root relpath =
     (let parts = strings_Split (filepath_Clean relpath) Separator
      in filepath_Join root (strings_Join (stripLoop parts parts) Separator))"

subsection \<open>Containment\<close>

text \<open>
  The elements of a path: the pieces between separators, without the empty ones and
  without \<open>.\<close>. A path lies within a root when it is rooted exactly when the cleaned root
  is, its elements begin with the elements of the cleaned root, and no element after them
  is \<open>..\<close>.
\<close>

definition pathElems :: "string \<Rightarrow> string list" where
  "pathElems path = filter (\<lambda>e. e \<noteq> [] \<and> e \<noteq> ''.'') (strings_Split path Separator)"

text \<open>An element that \<open>filepath.Clean\<close> copies to its result as it is.\<close>

definition realElem :: "string \<Rightarrow> bool" where
  "realElem e = (e \<noteq> [] \<and> e \<noteq> ''.'' \<and> e \<noteq> ''..'')"

definition withinRoot :: "string \<Rightarrow> string \<Rightarrow> bool" where
  "withinRoot root path =
     (let r = pathElems (filepath_Clean root); q = pathElems path
      in isRooted path = isRooted (filepath_Clean root) \<and> prefix r q \<and>
         ''..'' \<notin> set (drop (length r) q))"

section \<open>The tokenizer\<close>

text \<open>
  The source of the tokenizer is not among the files at hand; only its tests are
  (\<open>lexTests\<close>). The definitions of this section are therefore written from the
  specification, section 4.1 and section 7, and agree with every entry of \<open>lexTests\<close>.
  Input is a list of characters with codes below 256; tokens carry their kind and their
  literal text, the two fields the tests compare. Where the specification does not say what
  the tokenizer does, the model returns \<open>Unspecified\<close>, and the whole scan \<open>None\<close>.
\<close>

subsection \<open>Tokens, character classes and messages\<close>

text \<open>
  Modelled from the spec: the token kinds of section 3 (the tokenizer's type declarations are
  missing), under the names the tests use.
\<close>

datatype tokenType =
    tokenError | tokenEOF | tokenSpace | tokenNewline | tokenIdentifier | tokenAttrDeclare
  | tokenAssign | tokenString | tokenLeftDelim | tokenRightDelim | tokenBody

text \<open>
  Modelled from the spec: a token with its kind and its literal text, the fields of section 3
  that the tests compare (the tokenizer's type declarations are missing).
\<close>

type_synonym token = "tokenType \<times> string"

text \<open>
  Modelled from the spec: the newline of section 4.1, the line feed (the tokenizer's character
  tests are missing).
\<close>

definition newline :: char where "newline = CHR 0x0A"

text \<open>
  Modelled from the spec: the tab, which section 4.1 treats like the space (the tokenizer's
  character tests are missing).
\<close>

definition tab :: char where "tab = CHR 0x09"

text \<open>
  Modelled from the spec: the dash of section 4.1, attribute prefix and identifier character
  (the tokenizer's character tests are missing).
\<close>

definition dash :: char where "dash = CHR ''-''"

text \<open>
  Modelled from the spec: the quote that delimits a string literal in section 4.1 and in the
  tests, the double quote (the tokenizer's character tests are missing).
\<close>

definition quote :: char where "quote = CHR 0x22"

text \<open>
  Modelled from the spec: the blanks of section 4.1, space and tab (the tokenizer's character
  tests are missing).
\<close>

definition isSpace :: "char \<Rightarrow> bool" where
  "isSpace c = (c = CHR '' '' \<or> c = tab)"

text \<open>
  Modelled from the spec: the word characters of section 4.1, taken as the ASCII letters, the
  digits and the underscore (the tokenizer's character tests are missing).
\<close>

definition isWordChar :: "char \<Rightarrow> bool" where
  "isWordChar c =
     (let n = (of_char c :: nat)
      in (48 \<le> n \<and> n \<le> 57) \<or> (65 \<le> n \<and> n \<le> 90) \<or> (97 \<le> n \<and> n \<le> 122) \<or> n = 95)"

text \<open>
  Modelled from the spec: the characters an identifier scan accepts in section 4.1, word
  characters and the dash (the tokenizer's character tests are missing).
\<close>

definition isIdentChar :: "char \<Rightarrow> bool" where
  "isIdentChar c = (isWordChar c \<or> c = dash)"

text \<open>
  Modelled from the spec: the hexadecimal digits of the code point in the messages of section
  7, in upper case (the tokenizer's format strings are missing).
\<close>

definition hexDigit :: "nat \<Rightarrow> char" where
  "hexDigit n = ''0123456789ABCDEF'' ! (n mod 16)"

text \<open>
  Modelled from the spec: the code point in the messages of section 7, \<open>U+\<close> and
  four hexadecimal digits (the tokenizer's format strings are missing).
\<close>

definition codepoint :: "char \<Rightarrow> string" where
  "codepoint c = ''U+00'' @ [hexDigit (of_char c div 16), hexDigit (of_char c)]"

text \<open>
  Modelled from the spec: the code point followed by the character between apostrophes, as in
  the messages of section 7 (the tokenizer's format strings are missing).
\<close>

definition quoted :: "char \<Rightarrow> string" where
  "quoted c = codepoint c @ [CHR '' '', CHR 0x27, c, CHR 0x27]"

text \<open>
  Modelled from the spec: the message of section 7 for a character where an identifier may
  start (the tokenizer's format strings are missing).
\<close>

definition errInvalidCharacter :: "char \<Rightarrow> string" where
  "errInvalidCharacter c = ''invalid character '' @ quoted c"

text \<open>
  Modelled from the spec: the message of section 7 for a character within an identifier (the
  tokenizer's format strings are missing).
\<close>

definition errInvalidCharacterInIdentifier :: "char \<Rightarrow> string" where
  "errInvalidCharacterInIdentifier c =
     ''invalid character '' @ quoted c @ '' within tag identifier, space or newline expected''"

text \<open>
  Modelled from the spec: the message of section 7 for a dash as the last character of an
  identifier (the tokenizer's format strings are missing).
\<close>

definition errTrailingDash :: string where
  "errTrailingDash = ''invalid character '' @ quoted dash @ '' at the end of the identifier''"

text \<open>
  Modelled from the spec: the message of section 7 for content after leading blanks (the
  tokenizer's format strings are missing).
\<close>

definition errMisplacedTagStart :: "char \<Rightarrow> string" where
  "errMisplacedTagStart c =
     ''misplaced character '' @ quoted c @ '', tag identifier must start on the newline''"

subsection \<open>Scans of one construct\<close>

text \<open>
  Modelled from the spec: the outcome of scanning one construct (the tokenizer's state
  functions are missing). \<open>Failed toks msg\<close>: the tokens emitted before the violation and the
  message of the Error token; \<open>Scanned toks rest\<close>: the tokens and the input that is left;
  \<open>Unspecified\<close>: a situation the specification is silent about.
\<close>

datatype scan = Failed "token list" string | Scanned "token list" string | Unspecified

text \<open>
  Modelled from the spec: the terminators of an identifier in section 4.1: end of input, space
  or tab, newline, \<open>=\<close>, and the open delimiter (the identifier scan is missing).
\<close>

definition atTerminator :: "string \<Rightarrow> string \<Rightarrow> bool" where
  "atTerminator left rest =
     (case rest of [] \<Rightarrow> True
      | d # _ \<Rightarrow> isSpace d \<or> d = newline \<or> d = CHR ''='' \<or> prefix left rest)"

text \<open>
  Modelled from the spec: the identifier scan of section 4.1 (the function is missing). The
  first character must be a word character, otherwise it is reported as an invalid
  character, the dash included. The scan takes word characters and dashes; it ends at a
  terminator (end of input, space or tab, newline, \<open>=\<close>, the open delimiter), where a dash
  as the last character is rejected; any other character is an invalid character within the
  identifier.
\<close>

definition scanIdentifier :: "string \<Rightarrow> string \<Rightarrow> scan" where
  "scanIdentifier left s =
     (case s of
        [] \<Rightarrow> Unspecified
      | c # _ \<Rightarrow>
          if \<not> isWordChar c then Failed [] (errInvalidCharacter c)
          else let ident = takeWhile isIdentChar s; rest = dropWhile isIdentChar s
               in if atTerminator left rest
                  then (if last ident = dash then Failed [] errTrailingDash
                        else Scanned [(tokenIdentifier, ident)] rest)
                  else (case rest of [] \<Rightarrow> Unspecified
                        | d # _ \<Rightarrow> Failed [] (errInvalidCharacterInIdentifier d)))"

text \<open>
  Modelled from the spec: the string literal of an attribute (the function is missing): from a
  double quote to the first following double quote, the quotes included in the token. A
  literal that does not start with a double quote, or does not end, is not specified.
\<close>

definition scanString :: "string \<Rightarrow> scan" where
  "scanString s =
     (case s of
        [] \<Rightarrow> Unspecified
      | q # cs \<Rightarrow>
          if q \<noteq> quote then Unspecified
          else (case dropWhile (\<lambda>c. c \<noteq> quote) cs of
                  [] \<Rightarrow> Unspecified
                | _ # rest \<Rightarrow>
                    Scanned [(tokenString, q # takeWhile (\<lambda>c. c \<noteq> quote) cs @ [quote])] rest))"

text \<open>
  Modelled from the spec: an attribute after its prefix (the function is missing): the
  identifier scan, the required \<open>=\<close>, and the string literal.
\<close>

definition scanAttribute :: "string \<Rightarrow> string \<Rightarrow> scan" where
  "scanAttribute left s =
     (case scanIdentifier left s of
        Failed toks msg \<Rightarrow> Failed toks msg
      | Unspecified \<Rightarrow> Unspecified
      | Scanned toks rest \<Rightarrow>
          (case rest of
             [] \<Rightarrow> Unspecified
           | e # rest' \<Rightarrow>
               if e \<noteq> CHR ''='' then Unspecified
               else (case scanString rest' of
                       Failed toks' msg \<Rightarrow> Failed (toks @ (tokenAssign, [e]) # toks') msg
                     | Unspecified \<Rightarrow> Unspecified
                     | Scanned toks' rest'' \<Rightarrow> Scanned (toks @ (tokenAssign, [e]) # toks') rest'')))"

text \<open>
  Modelled from the spec: inline body mode (the function is missing): the text up to the first
  occurrence of the close delimiter, and the input after that occurrence.
\<close>

fun splitAtFirst :: "string \<Rightarrow> string \<Rightarrow> (string \<times> string) option" where
  "splitAtFirst right [] = None"
| "splitAtFirst right (c # cs) =
     (if prefix right (c # cs) then Some ([], drop (length right) (c # cs))
      else map_option (\<lambda>(body, rest). (c # body, rest)) (splitAtFirst right cs))"

text \<open>
  Modelled from the spec: the closing line of a multi-line body in section 4.1: without its
  trailing spaces and tabs it equals the close delimiter (the body scan is missing).
\<close>

definition isCloseLine :: "string \<Rightarrow> string \<Rightarrow> bool" where
  "isCloseLine right line = (rev (dropWhile isSpace (rev line)) = right)"

text \<open>
  Modelled from the spec: multi-line body mode (the function is missing). A line closes the
  body when, without its trailing spaces and tabs, it equals the close delimiter. The search
  goes line by line, adding each other line to the text after a newline, and returns the text
  and the input after the delimiter of the closing line.
\<close>

function closeLineSearch :: "string \<Rightarrow> string \<Rightarrow> string \<Rightarrow> (string \<times> string) option" where
  "closeLineSearch right body s =
     (if isCloseLine right (takeWhile (\<lambda>c. c \<noteq> newline) s)
      then Some (body, drop (length right) s)
      else (case dropWhile (\<lambda>c. c \<noteq> newline) s of
              [] \<Rightarrow> None
            | _ # s' \<Rightarrow>
                closeLineSearch right (body @ newline # takeWhile (\<lambda>c. c \<noteq> newline) s) s'))"
  by pat_completeness auto
termination
proof (relation "measure (\<lambda>(right, body, s). length s)")
  show "wf (measure (\<lambda>(right, body, s). length s))" by simp
next
  fix right body s :: string and x21 :: char and x22 :: string
  assume "dropWhile (\<lambda>c. c \<noteq> newline) s = x21 # x22"
  then have "length (x21 # x22) \<le> length s"
    by (metis length_dropWhile_le)
  then show "((right, body @ newline # takeWhile (\<lambda>c. c \<noteq> newline) s, x22), right, body, s)
      \<in> measure (\<lambda>(right, body, s). length s)" by simp
qed

text \<open>
  Modelled from the spec: body-content scanning, entered after the open delimiter (the
  function is missing). After the blanks that follow the delimiter, a newline selects
  multi-line mode, whose text starts with the next line; anything else selects inline mode,
  whose text starts right after the delimiter, as the tests show. A multi-line body without a
  content line or without a closing line, and an inline body without a close delimiter, are
  not specified.
\<close>

definition scanBody :: "string \<Rightarrow> string \<Rightarrow> scan" where
  "scanBody right s =
     (case dropWhile isSpace s of
        [] \<Rightarrow> Unspecified
      | c # s' \<Rightarrow>
          if c = newline then
            (if isCloseLine right (takeWhile (\<lambda>c. c \<noteq> newline) s') then Unspecified
             else (case dropWhile (\<lambda>c. c \<noteq> newline) s' of
                     [] \<Rightarrow> Unspecified
                   | _ # s'' \<Rightarrow>
                       (case closeLineSearch right (takeWhile (\<lambda>c. c \<noteq> newline) s') s'' of
                          None \<Rightarrow> Unspecified
                        | Some (body, rest) \<Rightarrow>
                            Scanned [(tokenNewline, [newline]), (tokenBody, body),
                                     (tokenNewline, [newline]), (tokenRightDelim, right)] rest)))
          else (case splitAtFirst right s of
                  None \<Rightarrow> Unspecified
                | Some (body, rest) \<Rightarrow>
                    Scanned ((if body \<noteq> [] then [(tokenBody, body)] else [])
                             @ [(tokenRightDelim, right)]) rest))"

subsection \<open>The scan of a whole input\<close>

text \<open>Every scan leaves a part of its input, which makes the scan of a whole input terminate.\<close>

lemma suffix_dropWhile: "suffix (dropWhile P s) s"
  by (metis suffixI takeWhile_dropWhile_id)

lemma suffix_Cons_length: "suffix (c # rest) s \<Longrightarrow> length rest < length s"
  using suffix_length_le by fastforce

lemma scanIdentifier_shorter:
  "scanIdentifier left s = Scanned toks rest \<Longrightarrow> length rest < length s"
proof -
  assume a: "scanIdentifier left s = Scanned toks rest"
  then obtain c cs where s: "s = c # cs" by (cases s) (auto simp: scanIdentifier_def)
  have w: "isWordChar c" using a s by (auto simp: scanIdentifier_def split: if_splits)
  have "rest = dropWhile isIdentChar s"
    using a s w by (auto simp: scanIdentifier_def Let_def split: if_splits list.splits)
  then have "rest = dropWhile isIdentChar cs" using s w by (simp add: isIdentChar_def)
  then show ?thesis using s length_dropWhile_le[of isIdentChar cs] by simp
qed

lemma scanString_shorter:
  "scanString s = Scanned toks rest \<Longrightarrow> length rest < length s"
proof -
  assume a: "scanString s = Scanned toks rest"
  then obtain q cs where s: "s = q # cs" by (cases s) (auto simp: scanString_def)
  obtain x where "dropWhile (\<lambda>c. c \<noteq> quote) cs = x # rest"
    using a s by (auto simp: scanString_def split: if_splits list.splits)
  then have "length rest < length cs"
    using suffix_Cons_length[of x rest cs] suffix_dropWhile[of "\<lambda>c. c \<noteq> quote" cs] by simp
  then show ?thesis using s by simp
qed

lemma scanAttribute_shorter:
  "scanAttribute left s = Scanned toks rest \<Longrightarrow> length rest < length s"
proof -
  assume a: "scanAttribute left s = Scanned toks rest"
  then obtain t1 r1 where i: "scanIdentifier left s = Scanned t1 r1"
    by (auto simp: scanAttribute_def split: scan.splits)
  then obtain e r2 where r1: "r1 = e # r2"
    using a by (cases r1) (auto simp: scanAttribute_def)
  obtain t2 where "scanString r2 = Scanned t2 rest"
    using a i r1 by (auto simp: scanAttribute_def split: scan.splits if_splits)
  then have "length rest < length r2" by (rule scanString_shorter)
  then show ?thesis using scanIdentifier_shorter[OF i] r1 by simp
qed

lemma splitAtFirst_suffix: "splitAtFirst right s = Some (body, rest) \<Longrightarrow> suffix rest s"
proof (induction s arbitrary: body)
  case Nil then show ?case by simp
next
  case (Cons c cs)
  show ?case
  proof (cases "prefix right (c # cs)")
    case True
    then have "rest = drop (length right) (c # cs)" using Cons.prems by simp
    then show ?thesis by (simp only: suffix_drop)
  next
    case False
    then obtain b where "splitAtFirst right cs = Some (b, rest)"
      using Cons.prems by auto
    then have "suffix rest cs" by (rule Cons.IH)
    then show ?thesis by (rule suffix_ConsI)
  qed
qed

lemma closeLineSearch_suffix:
  "closeLineSearch right body s = Some (body', rest) \<Longrightarrow> suffix rest s"
proof (induction right body s rule: closeLineSearch.induct)
  case (1 right body s)
  show ?case
  proof (cases "isCloseLine right (takeWhile (\<lambda>c. c \<noteq> newline) s)")
    case True
    then have "rest = drop (length right) s" using "1.prems" by simp
    then show ?thesis by (simp only: suffix_drop)
  next
    case False
    then obtain x s' where d: "dropWhile (\<lambda>c. c \<noteq> newline) s = x # s'"
      using "1.prems" by (cases "dropWhile (\<lambda>c. c \<noteq> newline) s") auto
    then have "closeLineSearch right (body @ newline # takeWhile (\<lambda>c. c \<noteq> newline) s) s'
        = Some (body', rest)"
      using "1.prems" False by simp
    then have "suffix rest s'" using "1.IH"[OF False d] by simp
    then have "suffix rest (x # s')" by (rule suffix_ConsI)
    then show ?thesis using d suffix_dropWhile[of "\<lambda>c. c \<noteq> newline" s] suffix_order.trans by metis
  qed
qed

lemma scanBody_suffix: "scanBody right s = Scanned toks rest \<Longrightarrow> suffix rest s"
proof -
  assume a: "scanBody right s = Scanned toks rest"
  then obtain c s' where d: "dropWhile isSpace s = c # s'"
    by (cases "dropWhile isSpace s") (auto simp: scanBody_def)
  have sf: "suffix (c # s') s" using d suffix_dropWhile[of isSpace s] by simp
  show ?thesis
  proof (cases "c = newline")
    case True
    have u: "(if isCloseLine right (takeWhile (\<lambda>c. c \<noteq> newline) s') then Unspecified
             else (case dropWhile (\<lambda>c. c \<noteq> newline) s' of
                     [] \<Rightarrow> Unspecified
                   | _ # s'' \<Rightarrow>
                       (case closeLineSearch right (takeWhile (\<lambda>c. c \<noteq> newline) s') s'' of
                          None \<Rightarrow> Unspecified
                        | Some (body, rest) \<Rightarrow>
                            Scanned [(tokenNewline, [newline]), (tokenBody, body),
                                     (tokenNewline, [newline]), (tokenRightDelim, right)] rest)))
         = Scanned toks rest"
      using a True unfolding scanBody_def d by simp
    obtain x s'' where d2: "dropWhile (\<lambda>c. c \<noteq> newline) s' = x # s''"
    proof (cases "dropWhile (\<lambda>c. c \<noteq> newline) s'")
      case Nil
      then show ?thesis using u by (simp only: list.case if_distrib split: if_splits) simp_all
    next
      case (Cons x s'')
      then show ?thesis using that by blast
    qed
    obtain body where "closeLineSearch right (takeWhile (\<lambda>c. c \<noteq> newline) s') s'' = Some (body, rest)"
      using u unfolding d2 by (auto split: if_splits option.splits)
    then have "suffix rest s''" by (rule closeLineSearch_suffix)
    then have "suffix rest (x # s'')" by (rule suffix_ConsI)
    then have "suffix rest s'" using d2 suffix_dropWhile[of "\<lambda>c. c \<noteq> newline" s'] suffix_order.trans by metis
    then have "suffix rest (c # s')" by (rule suffix_ConsI)
    then show ?thesis using sf suffix_order.trans by blast
  next
    case False
    then obtain body where "splitAtFirst right s = Some (body, rest)"
      using a d by (auto simp: scanBody_def split: option.splits)
    then show ?thesis by (rule splitAtFirst_suffix)
  qed
qed

text \<open>
  Modelled from the spec: the two contexts of section 4.1 (the tokenizer's state is
  missing).
\<close>

datatype lexState = LineStart | InsideTag

text \<open>
  Modelled from the spec: tokens emitted before the rest of the scan, which may be unspecified
  (the tokenizer's emit function is missing).
\<close>

definition emit :: "token list \<Rightarrow> token list option \<Rightarrow> token list option" where
  "emit toks following = map_option (\<lambda>ts. toks @ ts) following"

text \<open>
  Modelled from the spec: the scan from a context (the tokenizer's loop is missing). At the
  start of a line a comment is dropped with its newline, a blank line is dropped, a character
  after leading blanks is misplaced, and anything else starts a tag name. Inside a tag a run of
  blanks is one Space token, a newline ends the tag, a dash starts an attribute, the open
  delimiter starts a body, and any other character is invalid. After the close delimiter the
  blanks are dropped and the newline or the end of input ends the tag; another character
  there is not specified.
\<close>

function lexFrom :: "string \<Rightarrow> string \<Rightarrow> lexState \<Rightarrow> string \<Rightarrow> token list option" where
  "lexFrom left right LineStart s =
     (case s of
        [] \<Rightarrow> Some [(tokenEOF, [])]
      | c # cs \<Rightarrow>
          if c = CHR ''#'' then lexFrom left right LineStart (drop 1 (dropWhile (\<lambda>c. c \<noteq> newline) cs))
          else (case dropWhile isSpace s of
                  [] \<Rightarrow> Some [(tokenEOF, [])]
                | d # ds \<Rightarrow>
                    if d = newline then lexFrom left right LineStart ds
                    else if isSpace c then Some [(tokenError, errMisplacedTagStart d)]
                    else (case scanIdentifier left s of
                            Failed toks msg \<Rightarrow> Some (toks @ [(tokenError, msg)])
                          | Scanned toks rest \<Rightarrow> emit toks (lexFrom left right InsideTag rest)
                          | Unspecified \<Rightarrow> None)))"
| "lexFrom left right InsideTag s =
     (case s of
        [] \<Rightarrow> Some [(tokenEOF, [])]
      | c # cs \<Rightarrow>
          if isSpace c
            then emit [(tokenSpace, takeWhile isSpace s)]
                   (lexFrom left right InsideTag (dropWhile isSpace s))
          else if c = newline then emit [(tokenNewline, [c])] (lexFrom left right LineStart cs)
          else if c = dash then
            (case scanAttribute left cs of
               Failed toks msg \<Rightarrow> Some ((tokenAttrDeclare, [c]) # toks @ [(tokenError, msg)])
             | Scanned toks rest \<Rightarrow>
                 emit ((tokenAttrDeclare, [c]) # toks) (lexFrom left right InsideTag rest)
             | Unspecified \<Rightarrow> None)
          else if prefix left s then
            (case scanBody right (drop (length left) s) of
               Failed toks msg \<Rightarrow> Some ((tokenLeftDelim, left) # toks @ [(tokenError, msg)])
             | Scanned toks rest \<Rightarrow>
                 emit ((tokenLeftDelim, left) # toks)
                   (case dropWhile isSpace rest of
                      [] \<Rightarrow> Some [(tokenEOF, [])]
                    | d # ds \<Rightarrow>
                        if d = newline then emit [(tokenNewline, [d])] (lexFrom left right LineStart ds)
                        else None)
             | Unspecified \<Rightarrow> None)
          else Some [(tokenError, errInvalidCharacter c)])"
  by pat_completeness auto
termination
proof (relation "measure (\<lambda>(left, right, st, s). length s)", goal_cases)
  case 1
  show ?case by simp
next
  case (2 left right s c cs)
  then show ?case using length_dropWhile_le[of "\<lambda>c. c \<noteq> newline" cs] by simp
next
  case (3 left right s c cs d ds)
  then have "length ds < length s"
    using suffix_Cons_length[of d ds s] suffix_dropWhile[of isSpace s] by simp
  then show ?case by simp
next
  case (4 left right s c cs d ds toks rest)
  then show ?case using scanIdentifier_shorter[of left s toks rest] by simp
next
  case (5 left right s c cs)
  then show ?case using length_dropWhile_le[of isSpace cs] by simp
next
  case (6 left right s c cs)
  then show ?case by simp
next
  case (7 left right s c cs toks rest)
  then show ?case using scanAttribute_shorter[of left cs toks rest] by simp
next
  case (8 left right s c cs toks rest d ds)
  have "suffix rest (drop (length left) s)" using 8 scanBody_suffix by blast
  then have "suffix rest s" using suffix_drop suffix_order.trans by blast
  moreover have "suffix (d # ds) rest" using 8 suffix_dropWhile[of isSpace rest] by simp
  ultimately have "suffix (d # ds) s" using suffix_order.trans by blast
  then have "length ds < length s" by (rule suffix_Cons_length)
  then show ?case by simp
qed

declare lexFrom.simps [simp del]

text \<open>
  Modelled from the spec: the entry point (the function \<open>lex\<close> is missing; the tests call
  it with a name that only labels the scan, the input, and empty delimiters). An empty
  delimiter stands for the default.
\<close>

definition lex :: "string \<Rightarrow> string \<Rightarrow> string \<Rightarrow> token list option" where
  "lex input left right =
     lexFrom (if left = [] then ''<<'' else left) (if right = [] then ''>>'' else right)
       LineStart input"

subsection \<open>Vocabulary for the statements about the tokenizer\<close>

text \<open>
  A line is blank when all its characters are spaces or tabs, and a comment when it starts
  with \<open>#\<close>. An input consists of whitespace and comments when each of its lines, the
  pieces between its newlines, is one or the other.
\<close>

definition blankOrComment :: "string \<Rightarrow> bool" where
  "blankOrComment line =
     (case line of [] \<Rightarrow> True | c # _ \<Rightarrow> c = CHR ''#'' \<or> list_all isSpace line)"

definition whitespaceAndComments :: "string \<Rightarrow> bool" where
  "whitespaceAndComments input = list_all blankOrComment (strings_Split input newline)"

section \<open>Properties of the assembler\<close>

lemma find_from_none: "0 \<le> i \<Longrightarrow> (find_from v key i = -1) = (key \<notin> fst ` set v)"
proof (induction v arbitrary: i)
  case Nil then show ?case by simp
next
  case (Cons a v)
  from Cons.IH[of "i + 1"] Cons.prems show ?case by auto
qed

lemma find_from_shift: "0 \<le> i \<Longrightarrow> key \<in> fst ` set v \<Longrightarrow> find_from v key i = i + find_from v key 0"
proof (induction v arbitrary: i)
  case Nil then show ?case by simp
next
  case (Cons a v)
  show ?case
  proof (cases "fst a = key")
    case True then show ?thesis by simp
  next
    case False
    with Cons.prems have k: "key \<in> fst ` set v" by auto
    from Cons.IH[OF _ k, of "i + 1"] Cons.IH[OF _ k, of 1] Cons.prems False show ?thesis by simp
  qed
qed

lemma find_from_found:
  "key \<in> fst ` set v \<Longrightarrow>
     0 \<le> find_from v key 0 \<and> nat (find_from v key 0) < length v \<and>
     fst (v ! nat (find_from v key 0)) = key \<and>
     (\<forall>j < nat (find_from v key 0). fst (v ! j) \<noteq> key)"
proof (induction v)
  case Nil then show ?case by simp
next
  case (Cons a v)
  show ?case
  proof (cases "fst a = key")
    case True then show ?thesis by simp
  next
    case False
    with Cons.prems have k: "key \<in> fst ` set v" by auto
    have s: "find_from v key 1 = 1 + find_from v key 0" using find_from_shift[OF _ k, of 1] by simp
    from Cons.IH[OF k] have ih: "0 \<le> find_from v key 0" "nat (find_from v key 0) < length v"
      "fst (v ! nat (find_from v key 0)) = key" "\<forall>j < nat (find_from v key 0). fst (v ! j) \<noteq> key" by auto
    have n: "nat (1 + find_from v key 0) = Suc (nat (find_from v key 0))" using ih(1) by simp
    show ?thesis using False ih s n by (auto simp: nth_Cons split: nat.splits)
  qed
qed

lemma map_fst_update: "i < length v \<Longrightarrow> fst (v ! i) = key \<Longrightarrow> map fst (v[i := (key, val)]) = map fst v"
  by (simp add: list_eq_iff_nth_eq nth_list_update)

lemma setVar_fresh:
  "name \<notin> fst ` set (Vars m) \<Longrightarrow> setVar name val (m, lg) = (m\<lparr>Vars := Vars m @ [(name, val)]\<rparr>, lg)"
  using find_from_none[of 0 "Vars m" name] by (simp add: setVar_def vars_find_def)

lemma setVar_known:
  "name \<in> fst ` set (Vars m) \<Longrightarrow>
     setVar name val (m, lg) =
       (m\<lparr>Vars := (Vars m)[nat (vars_find (Vars m) name) := (name, val)]\<rparr>, lg @ [VariableExists name])"
  using find_from_none[of 0 "Vars m" name] by (simp add: setVar_def vars_find_def)

lemma setVar_names:
  "map fst (Vars (fst (setVar name val (m, lg)))) =
     (if name \<in> fst ` set (Vars m) then map fst (Vars m) else map fst (Vars m) @ [name])"
  using find_from_found[of name "Vars m"]
  by (simp add: setVar_fresh setVar_known vars_find_def map_fst_update)

lemma tag_names_distinct:
  "tagFilename \<noteq> tagSkip" "tagFilename \<noteq> tagTemplate" "tagFilename \<noteq> tagPartial"
  "tagFilename \<noteq> tagVariable" "tagSkip \<noteq> tagTemplate" "tagSkip \<noteq> tagPartial"
  "tagSkip \<noteq> tagVariable" "tagTemplate \<noteq> tagPartial" "tagTemplate \<noteq> tagVariable"
  "tagPartial \<noteq> tagVariable"
  by (simp_all add: tagFilename_def tagSkip_def tagTemplate_def tagPartial_def tagVariable_def)

lemma parseTag_variable:
  "definesVariable t n \<Longrightarrow> parseTag wrap (m, lg) t = setVar n (parseScriptBody wrap t) (m, lg)"
  using tag_names_distinct
  by (auto simp: definesVariable_def parseTag_def parseTagNameAttr_def Let_def)

lemma parseTag_other_Vars:
  "\<not> definesVariable t (lastNameAttr (Attributes t)) \<Longrightarrow> Vars (fst (parseTag wrap (m, lg) t)) = Vars m"
  by (auto simp: definesVariable_def parseTag_def parseTagNameAttr_def Let_def setPartial_def)

lemma parseTags_snoc: "parseTags wrap (ts @ [t]) = parseTag wrap (parseTags wrap ts) t"
  by (simp add: parseTags_def)

lemma firstSeen_snoc:
  "firstSeen (xs @ [x]) = (if x \<in> set xs then firstSeen xs else firstSeen xs @ [x])"
  by (simp add: firstSeen_def)

lemma set_firstSeen: "set (firstSeen xs) = set xs"
  by (simp add: firstSeen_def)

lemma distinct_firstSeen: "distinct (firstSeen xs)"
  by (simp add: firstSeen_def)

lemma parseTags_names:
  "map fst (Vars (fst (parseTags wrap ts))) = firstSeen (definedVariables ts)"
proof (induction ts rule: rev_induct)
  case Nil
  show ?case by (simp add: parseTags_def newMarkup_def definedVariables_def firstSeen_def)
next
  case (snoc t ts)
  obtain m lg where st: "parseTags wrap ts = (m, lg)" by (cases "parseTags wrap ts")
  with snoc have ih: "map fst (Vars m) = firstSeen (definedVariables ts)" by simp
  then have sets: "fst ` set (Vars m) = set (definedVariables ts)"
    using set_firstSeen[of "definedVariables ts"] by (metis list.set_map)
  show ?case
  proof (cases "definesVariable t (lastNameAttr (Attributes t))")
    case True
    have d: "definedVariables (ts @ [t]) = definedVariables ts @ [lastNameAttr (Attributes t)]"
      using True by (simp add: definedVariables_def)
    show ?thesis
      by (simp only: parseTags_snoc st parseTag_variable[OF True] setVar_names d firstSeen_snoc sets ih)
  next
    case False
    have d: "definedVariables (ts @ [t]) = definedVariables ts"
      using False by (simp add: definedVariables_def)
    show ?thesis
      by (simp only: parseTags_snoc st parseTag_other_Vars[OF False] d ih)
  qed
qed

lemma parseTag_log:
  "parseTag wrap (m, lg) t = (fst (parseTag wrap (m, []) t), lg @ snd (parseTag wrap (m, []) t))"
  by (auto simp: parseTag_def parseTagNameAttr_def setPartial_def setVar_def Let_def)

lemma foldl_parseTag_log:
  "foldl (parseTag wrap) (m, lg) ts =
     (fst (foldl (parseTag wrap) (m, []) ts), lg @ snd (foldl (parseTag wrap) (m, []) ts))"
proof (induction ts arbitrary: m lg)
  case Nil
  show ?case by simp
next
  case (Cons t ts)
  obtain m' ds where step: "parseTag wrap (m, []) t = (m', ds)" by (cases "parseTag wrap (m, []) t")
  have a: "parseTag wrap (m, lg) t = (m', lg @ ds)" using parseTag_log[of wrap m lg t] step by simp
  show ?case
    using Cons.IH[of m' "lg @ ds"] Cons.IH[of m' ds] by (simp add: a step)
qed

lemma parseTags_append:
  "parseTags wrap (ts1 @ ts2) = foldl (parseTag wrap) (parseTags wrap ts1) ts2"
  by (simp add: parseTags_def)

lemma lastNameAttr_none:
  "\<forall>a \<in> set attrs. AttrName a \<noteq> attrName \<Longrightarrow>
     foldl (\<lambda>name attr. if AttrName attr = attrName then AttrValue attr else name) v attrs = v"
  by (induction attrs arbitrary: v) auto

lemma lastNameAttr_last:
  "AttrName a = attrName \<Longrightarrow> \<forall>b \<in> set as2. AttrName b \<noteq> attrName \<Longrightarrow>
     lastNameAttr (as1 @ a # as2) = AttrValue a"
  by (simp add: lastNameAttr_def lastNameAttr_none)

lemma parseTag_skipped:
  assumes "Name t = tagPartial \<or> Name t = tagVariable"
    and "lastNameAttr (Attributes t) = [] \<or> TagBody t = None"
  shows "parseTag wrap (m, lg) t =
      (m, lg @ [if lastNameAttr (Attributes t) = [] then MissingAttribute (Name t) attrName
                else MissingBody (Name t) (lastNameAttr (Attributes t))])"
  using assms tag_names_distinct
  by (auto simp: parseTag_def parseTagNameAttr_def Let_def)

lemma map_of_update_first:
  "key \<in> fst ` set v \<Longrightarrow> map_of (v[nat (find_from v key 0) := (key, val)]) key = Some val"
proof (induction v)
  case Nil then show ?case by simp
next
  case (Cons a v)
  show ?case
  proof (cases "fst a = key")
    case True then show ?thesis by simp
  next
    case False
    with Cons.prems have k: "key \<in> fst ` set v" by auto
    have s: "find_from v key 1 = 1 + find_from v key 0" using find_from_shift[OF _ k, of 1] by simp
    have ge: "0 \<le> find_from v key 0" using find_from_found[OF k] by simp
    have n: "nat (1 + find_from v key 0) = Suc (nat (find_from v key 0))" using ge by simp
    show ?thesis using False Cons.IH[OF k] by (cases a) (simp add: s n)
  qed
qed

lemma map_of_setVar:
  "map_of (Vars (fst (setVar name val (m, lg)))) name = Some val"
proof (cases "name \<in> fst ` set (Vars m)")
  case True
  then show ?thesis by (simp add: setVar_known vars_find_def map_of_update_first)
next
  case False
  then have "map_of (Vars m) name = None" by (simp add: map_of_eq_None_iff)
  with False show ?thesis by (simp add: setVar_fresh map_add_def)
qed

lemma lastTagNamed_snoc:
  "lastTagNamed nm (ts @ [t]) = (if Name t = nm then Some t else lastTagNamed nm ts)"
  by (simp add: lastTagNamed_def)

lemma parseTag_Filename:
  "Filename (fst (parseTag wrap (m, lg) t)) =
     (if Name t = tagFilename then parseScriptBody wrap t else Filename m)"
  by (auto simp: parseTag_def parseTagNameAttr_def setPartial_def setVar_def Let_def)

lemma parseTag_Skip:
  "Skip (fst (parseTag wrap (m, lg) t)) =
     (if Name t = tagSkip then parseScriptBody wrap t else Skip m)"
  using tag_names_distinct
  by (auto simp: parseTag_def parseTagNameAttr_def setPartial_def setVar_def Let_def)

lemma parseTags_Filename:
  "Filename (fst (parseTags wrap ts)) =
     (case lastTagNamed tagFilename ts of None \<Rightarrow> [] | Some t \<Rightarrow> parseScriptBody wrap t)"
proof (induction ts rule: rev_induct)
  case Nil
  show ?case by (simp add: parseTags_def newMarkup_def lastTagNamed_def)
next
  case (snoc t ts)
  obtain m lg where st: "parseTags wrap ts = (m, lg)" by (cases "parseTags wrap ts")
  show ?case using snoc by (simp add: parseTags_snoc st parseTag_Filename lastTagNamed_snoc)
qed

lemma parseTags_Skip:
  "Skip (fst (parseTags wrap ts)) =
     (case lastTagNamed tagSkip ts of None \<Rightarrow> [] | Some t \<Rightarrow> parseScriptBody wrap t)"
proof (induction ts rule: rev_induct)
  case Nil
  show ?case by (simp add: parseTags_def newMarkup_def lastTagNamed_def)
next
  case (snoc t ts)
  obtain m lg where st: "parseTags wrap ts = (m, lg)" by (cases "parseTags wrap ts")
  show ?case using snoc by (simp add: parseTags_snoc st parseTag_Skip lastTagNamed_snoc)
qed

lemma parseTag_scalar:
  "Name t = tagFilename \<Longrightarrow> parseTag wrap (m, lg) t = (m\<lparr>Filename := parseScriptBody wrap t\<rparr>, lg)"
  "Name t = tagSkip \<Longrightarrow> parseTag wrap (m, lg) t = (m\<lparr>Skip := parseScriptBody wrap t\<rparr>, lg)"
  "Name t = tagTemplate \<Longrightarrow> parseTag wrap (m, lg) t = (m\<lparr>Body := parseBody t\<rparr>, lg)"
  using tag_names_distinct by (simp_all add: parseTag_def)

lemma parseTag_partial:
  "Name t = tagPartial \<Longrightarrow> TagBody t \<noteq> None \<Longrightarrow> lastNameAttr (Attributes t) \<noteq> [] \<Longrightarrow>
     parseTag wrap (m, lg) t = setPartial (lastNameAttr (Attributes t)) (parseBody t) (m, lg)"
  using tag_names_distinct by (auto simp: parseTag_def parseTagNameAttr_def Let_def)

text \<open>
  Claim C1. When a variable tag defines a name that an earlier variable tag of the
  sequence already defined, the new expression source replaces the value at the
  position the name already has in the ordered variables sequence: the sequence keeps
  its length and its names, nothing is appended, and one diagnostic is emitted.
\<close>
theorem variable_redefinition_in_place:
  assumes "t1 \<in> set ts" and "definesVariable t1 n" and "definesVariable t2 n"
  shows "let prev = parseTags wrap ts;
             nxt = parseTags wrap (ts @ [t2]);
             i = nat (vars_find (Vars (fst prev)) n)
         in i < length (Vars (fst prev)) \<and> fst (Vars (fst prev) ! i) = n \<and>
            Vars (fst nxt) = (Vars (fst prev))[i := (n, parseScriptBody wrap t2)] \<and>
            map fst (Vars (fst nxt)) = map fst (Vars (fst prev)) \<and>
            snd nxt = snd prev @ [VariableExists n]"
proof -
  obtain m lg where st: "parseTags wrap ts = (m, lg)" by (cases "parseTags wrap ts")
  have "lastNameAttr (Attributes t1) = n" using assms(2) by (simp add: definesVariable_def)
  then have "n \<in> set (definedVariables ts)"
    using assms(1,2) by (force simp: definedVariables_def)
  then have "n \<in> set (map fst (Vars m))"
    using parseTags_names[of wrap ts] st by (simp add: set_firstSeen)
  then have known: "n \<in> fst ` set (Vars m)" by simp
  have step: "parseTags wrap (ts @ [t2]) =
      (m\<lparr>Vars := (Vars m)[nat (vars_find (Vars m) n) := (n, parseScriptBody wrap t2)]\<rparr>,
       lg @ [VariableExists n])"
    by (simp add: parseTags_snoc st parseTag_variable[OF assms(3)] setVar_known[OF known])
  have f: "nat (vars_find (Vars m) n) < length (Vars m)" "fst (Vars m ! nat (vars_find (Vars m) n)) = n"
    using find_from_found[OF known] by (simp_all add: vars_find_def)
  show ?thesis
    by (simp add: Let_def st step f map_fst_update)
qed

theorem variable_redefinition_in_place_witness:
  "Vars (fst (parseTags (\<lambda>s. s)
      [\<lparr>Name = ''variable'', Attributes = [\<lparr>AttrName = ''name'', AttrValue = ''x''\<rparr>],
         TagBody = Some \<lparr>Content = ''1'', Inline = False\<rparr>\<rparr>,
       \<lparr>Name = ''variable'', Attributes = [\<lparr>AttrName = ''name'', AttrValue = ''y''\<rparr>],
         TagBody = Some \<lparr>Content = ''7'', Inline = False\<rparr>\<rparr>,
       \<lparr>Name = ''variable'', Attributes = [\<lparr>AttrName = ''name'', AttrValue = ''x''\<rparr>],
         TagBody = Some \<lparr>Content = ''2'', Inline = False\<rparr>\<rparr>]))
     = [(''x'', ''2''), (''y'', ''7'')]"
  using variable_redefinition_in_place
    [of "\<lparr>Name = ''variable'', Attributes = [\<lparr>AttrName = ''name'', AttrValue = ''x''\<rparr>],
           TagBody = Some \<lparr>Content = ''1'', Inline = False\<rparr>\<rparr>"
        "[\<lparr>Name = ''variable'', Attributes = [\<lparr>AttrName = ''name'', AttrValue = ''x''\<rparr>],
           TagBody = Some \<lparr>Content = ''1'', Inline = False\<rparr>\<rparr>,
          \<lparr>Name = ''variable'', Attributes = [\<lparr>AttrName = ''name'', AttrValue = ''y''\<rparr>],
           TagBody = Some \<lparr>Content = ''7'', Inline = False\<rparr>\<rparr>]"
        "''x''"
        "\<lparr>Name = ''variable'', Attributes = [\<lparr>AttrName = ''name'', AttrValue = ''x''\<rparr>],
           TagBody = Some \<lparr>Content = ''2'', Inline = False\<rparr>\<rparr>"
        "\<lambda>s. s"]
  by (simp add: definesVariable_def lastNameAttr_def attrName_def tagVariable_def parseTags_def
      parseTag_def parseTagNameAttr_def parseScriptBody_def setVar_def vars_find_def newMarkup_def
      tagFilename_def tagSkip_def tagTemplate_def tagPartial_def Let_def)

text \<open>
  Claim C2, amended. A \<open>filename\<close> or \<open>skipif\<close> tag stores the script source of its
  body in the scalar field of the document and emits no diagnostic. A body is not required: a
  tag without a body is accepted like any other and stores the empty source, also over a
  source stored before. After a whole sequence of tags each of the two fields holds the source
  of the last tag of that name, so a later tag silently overwrites an earlier one.
\<close>
theorem scalar_tags_store_and_overwrite:
  "(Name t = tagFilename \<longrightarrow>
      parseTag wrap (m, lg) t = (m\<lparr>Filename := parseScriptBody wrap t\<rparr>, lg)) \<and>
   (Name t = tagSkip \<longrightarrow>
      parseTag wrap (m, lg) t = (m\<lparr>Skip := parseScriptBody wrap t\<rparr>, lg)) \<and>
   (TagBody t = None \<longrightarrow> parseScriptBody wrap t = []) \<and>
   (Name t = tagFilename \<and> TagBody t = None \<longrightarrow>
      parseTag wrap (m, lg) t = (m\<lparr>Filename := []\<rparr>, lg)) \<and>
   (Name t = tagSkip \<and> TagBody t = None \<longrightarrow>
      parseTag wrap (m, lg) t = (m\<lparr>Skip := []\<rparr>, lg)) \<and>
   Filename (fst (parseTags wrap ts)) =
     (case lastTagNamed tagFilename ts of None \<Rightarrow> [] | Some t' \<Rightarrow> parseScriptBody wrap t') \<and>
   Skip (fst (parseTags wrap ts)) =
     (case lastTagNamed tagSkip ts of None \<Rightarrow> [] | Some t' \<Rightarrow> parseScriptBody wrap t')"
  by (simp add: parseTag_scalar parseTags_Filename parseTags_Skip parseScriptBody_def)

theorem scalar_tags_store_and_overwrite_witness:
  "parseTags (\<lambda>s. ''('' @ s @ '')'')
      [\<lparr>Name = ''filename'', Attributes = [], TagBody = Some \<lparr>Content = ''a'', Inline = True\<rparr>\<rparr>,
       \<lparr>Name = ''skipif'', Attributes = [], TagBody = Some \<lparr>Content = ''s'', Inline = False\<rparr>\<rparr>,
       \<lparr>Name = ''filename'', Attributes = [], TagBody = Some \<lparr>Content = ''b'', Inline = True\<rparr>\<rparr>,
       \<lparr>Name = ''skipif'', Attributes = [], TagBody = None\<rparr>]
     = (\<lparr>Filename = ''(b)'', Skip = [], Body = [], Vars = [], Partials = Map.empty\<rparr>, [])"
  using scalar_tags_store_and_overwrite
    [of "\<lparr>Name = ''skipif'', Attributes = [], TagBody = None\<rparr>"
        "\<lambda>s. ''('' @ s @ '')''"
        "\<lparr>Filename = ''(b)'', Skip = ''s'', Body = [], Vars = [], Partials = Map.empty\<rparr>"
        "[]" "[]"]
  by (simp add: parseTags_def parseTag_def parseScriptBody_def newMarkup_def
      tagFilename_def tagSkip_def tagTemplate_def tagPartial_def tagVariable_def)

text \<open>
  The claim as the specification words it requires a body. The assembler does not: after a
  \<open>filename\<close> tag with the body \<open>a\<close>, a second \<open>filename\<close> tag without a body is
  not skipped and raises no diagnostic; it replaces the stored source by the empty one.
\<close>

theorem bodiless_filename_accepted_counterexample:
  "TagBody \<lparr>Name = ''filename'', Attributes = [], TagBody = None\<rparr> = None \<and>
   Filename (fst (parseTags id
      [\<lparr>Name = ''filename'', Attributes = [], TagBody = Some \<lparr>Content = ''a'', Inline = False\<rparr>\<rparr>]))
     = ''a'' \<and>
   Filename (fst (parseTags id
      [\<lparr>Name = ''filename'', Attributes = [], TagBody = Some \<lparr>Content = ''a'', Inline = False\<rparr>\<rparr>,
       \<lparr>Name = ''filename'', Attributes = [], TagBody = None\<rparr>]))
     = [] \<and>
   snd (parseTags id
      [\<lparr>Name = ''filename'', Attributes = [], TagBody = Some \<lparr>Content = ''a'', Inline = False\<rparr>\<rparr>,
       \<lparr>Name = ''filename'', Attributes = [], TagBody = None\<rparr>])
     = []"
  by (simp add: parseTags_def parseTag_def parseScriptBody_def newMarkup_def tagFilename_def)

text \<open>
  Claim C3. For a tag with a body, \<open>filename\<close>, \<open>skipif\<close> and \<open>variable\<close> store
  \<open>wrapInlineScript\<close> of the content when the body is inline and the content itself when
  it is multi-line; \<open>template\<close> and \<open>partial\<close> store the content itself in both modes.
\<close>
theorem body_storage_forms:
  assumes "TagBody t = Some b"
  shows "(Name t = tagFilename \<longrightarrow>
            Filename (fst (parseTag wrapInlineScript (m, lg) t)) =
              (if Inline b then wrapInlineScript (Content b) else Content b)) \<and>
         (Name t = tagSkip \<longrightarrow>
            Skip (fst (parseTag wrapInlineScript (m, lg) t)) =
              (if Inline b then wrapInlineScript (Content b) else Content b)) \<and>
         (definesVariable t n \<longrightarrow>
            map_of (Vars (fst (parseTag wrapInlineScript (m, lg) t))) n =
              Some (if Inline b then wrapInlineScript (Content b) else Content b)) \<and>
         (Name t = tagTemplate \<longrightarrow>
            Body (fst (parseTag wrapInlineScript (m, lg) t)) = Content b) \<and>
         (Name t = tagPartial \<and> lastNameAttr (Attributes t) = n \<and> n \<noteq> [] \<longrightarrow>
            Partials (fst (parseTag wrapInlineScript (m, lg) t)) n = Some (Content b))"
proof -
  have sb: "parseScriptBody wrapInlineScript t =
      (if Inline b then wrapInlineScript (Content b) else Content b)"
    using assms by (simp add: parseScriptBody_def)
  have pb: "parseBody t = Content b" using assms by (simp add: parseBody_def)
  have v: "definesVariable t n \<longrightarrow>
      map_of (Vars (fst (parseTag wrapInlineScript (m, lg) t))) n =
        Some (if Inline b then wrapInlineScript (Content b) else Content b)"
    by (simp add: parseTag_variable map_of_setVar sb)
  have p: "Name t = tagPartial \<and> lastNameAttr (Attributes t) = n \<and> n \<noteq> [] \<longrightarrow>
      Partials (fst (parseTag wrapInlineScript (m, lg) t)) n = Some (Content b)"
    using assms by (auto simp: parseTag_partial setPartial_def pb)
  show ?thesis
    using v p by (simp add: parseTag_scalar sb pb)
qed

theorem body_storage_forms_witness:
  "Filename (fst (parseTag (\<lambda>s. ''('' @ s @ '')'') (newMarkup, [])
      \<lparr>Name = ''filename'', Attributes = [], TagBody = Some \<lparr>Content = ''a + b'', Inline = True\<rparr>\<rparr>))
     = ''(a + b)''"
  using body_storage_forms
    [of "\<lparr>Name = ''filename'', Attributes = [], TagBody = Some \<lparr>Content = ''a + b'', Inline = True\<rparr>\<rparr>"
        "\<lparr>Content = ''a + b'', Inline = True\<rparr>" "\<lambda>s. ''('' @ s @ '')''" newMarkup "[]" "''x''"]
  by (simp add: tagFilename_def)

lemma setVar_distinct:
  "distinct (map fst (Vars m)) \<Longrightarrow> distinct (map fst (Vars (fst (setVar name val (m, lg)))))"
  by (simp add: setVar_names)

lemma setPartial_Vars: "Vars (fst (setPartial name val (m, lg))) = Vars m"
  by (simp add: setPartial_def Let_def)

text \<open>
  Claim C4. A \<open>partial\<close> or \<open>variable\<close> tag without a \<open>name\<close> attribute or without
  a body leaves the document as it was and appends exactly one diagnostic; the tags after it
  are processed as if the tag were absent, their diagnostics following the new one.
\<close>
theorem incomplete_partial_or_variable_skipped:
  assumes "Name t = tagPartial \<or> Name t = tagVariable"
    and "(\<forall>a \<in> set (Attributes t). AttrName a \<noteq> attrName) \<or> TagBody t = None"
  shows "\<exists>d rest.
      d = (if lastNameAttr (Attributes t) = [] then MissingAttribute (Name t) attrName
           else MissingBody (Name t) (lastNameAttr (Attributes t))) \<and>
      parseTag wrap (m, lg) t = (m, lg @ [d]) \<and>
      fst (parseTags wrap (ts1 @ t # ts2)) = fst (parseTags wrap (ts1 @ ts2)) \<and>
      snd (parseTags wrap (ts1 @ ts2)) = snd (parseTags wrap ts1) @ rest \<and>
      snd (parseTags wrap (ts1 @ t # ts2)) = snd (parseTags wrap ts1) @ d # rest"
proof -
  define d where "d = (if lastNameAttr (Attributes t) = [] then MissingAttribute (Name t) attrName
           else MissingBody (Name t) (lastNameAttr (Attributes t)))"
  have cond: "lastNameAttr (Attributes t) = [] \<or> TagBody t = None"
    using assms(2) lastNameAttr_none[of "Attributes t" "[]"] by (auto simp: lastNameAttr_def)
  have step: "\<And>m lg. parseTag wrap (m, lg) t = (m, lg @ [d])"
    unfolding d_def by (rule parseTag_skipped[OF assms(1) cond])
  obtain m1 lg1 where st: "parseTags wrap ts1 = (m1, lg1)" by (cases "parseTags wrap ts1")
  define rest where "rest = snd (foldl (parseTag wrap) (m1, []) ts2)"
  have a: "parseTags wrap (ts1 @ ts2) = (fst (foldl (parseTag wrap) (m1, []) ts2), lg1 @ rest)"
    unfolding rest_def parseTags_append st by (rule foldl_parseTag_log)
  have b: "parseTags wrap (ts1 @ t # ts2) =
      (fst (foldl (parseTag wrap) (m1, []) ts2), (lg1 @ [d]) @ rest)"
    unfolding rest_def parseTags_append st foldl_Cons step by (rule foldl_parseTag_log)
  show ?thesis
    using step[of m lg] a b st d_def by auto
qed

theorem incomplete_partial_or_variable_skipped_witness:
  "parseTags (\<lambda>s. s)
      [\<lparr>Name = ''variable'', Attributes = [\<lparr>AttrName = ''name'', AttrValue = ''x''\<rparr>],
         TagBody = None\<rparr>,
       \<lparr>Name = ''template'', Attributes = [], TagBody = Some \<lparr>Content = ''hello'', Inline = True\<rparr>\<rparr>]
     = (\<lparr>Filename = [], Skip = [], Body = ''hello'', Vars = [], Partials = Map.empty\<rparr>,
        [MissingBody ''variable'' ''x''])"
  using incomplete_partial_or_variable_skipped
    [of "\<lparr>Name = ''variable'', Attributes = [\<lparr>AttrName = ''name'', AttrValue = ''x''\<rparr>],
           TagBody = None\<rparr>"
        "\<lambda>s. s" newMarkup "[]" "[]"
        "[\<lparr>Name = ''template'', Attributes = [], TagBody = Some \<lparr>Content = ''hello'', Inline = True\<rparr>\<rparr>]"]
  by (simp add: parseTags_def parseTag_def parseTagNameAttr_def parseBody_def lastNameAttr_def
      newMarkup_def attrName_def tagFilename_def tagSkip_def tagTemplate_def tagPartial_def
      tagVariable_def Let_def)

text \<open>
  Claim C5. In every document that the assembler reaches, no variable name occurs twice and
  the names are listed in the order in which they were first defined. \<open>setVar\<close>,
  \<open>setPartial\<close>, the stores into the scalar fields and a whole loop iteration keep the
  names distinct; \<open>setVar\<close> leaves the names in place or appends the new one, and
  \<open>setPartial\<close> does not touch the variables.
\<close>
theorem variables_unique_in_first_seen_order:
  "distinct (map fst (Vars (fst (parseTags wrap ts)))) \<and>
   map fst (Vars (fst (parseTags wrap ts))) = firstSeen (definedVariables ts) \<and>
   (distinct (map fst (Vars m)) \<longrightarrow>
      distinct (map fst (Vars (fst (setVar name val (m, lg))))) \<and>
      distinct (map fst (Vars (fst (setPartial name val (m, lg))))) \<and>
      distinct (map fst (Vars (m\<lparr>Filename := val\<rparr>))) \<and>
      distinct (map fst (Vars (m\<lparr>Skip := val\<rparr>))) \<and>
      distinct (map fst (Vars (m\<lparr>Body := val\<rparr>))) \<and>
      distinct (map fst (Vars (fst (parseTag wrap (m, lg) t))))) \<and>
   map fst (Vars (fst (setVar name val (m, lg)))) =
     (if name \<in> set (map fst (Vars m)) then map fst (Vars m) else map fst (Vars m) @ [name]) \<and>
   Vars (fst (setPartial name val (m, lg))) = Vars m"
proof -
  have a: "distinct (map fst (Vars (fst (parseTags wrap ts))))"
    by (simp only: parseTags_names distinct_firstSeen)
  have b: "distinct (map fst (Vars m)) \<Longrightarrow>
      distinct (map fst (Vars (fst (parseTag wrap (m, lg) t))))"
  proof (cases "definesVariable t (lastNameAttr (Attributes t))")
    case True
    assume "distinct (map fst (Vars m))"
    then show ?thesis by (simp only: parseTag_variable[OF True] setVar_distinct)
  next
    case False
    assume "distinct (map fst (Vars m))"
    then show ?thesis by (simp only: parseTag_other_Vars[OF False])
  qed
  have c: "map fst (Vars (fst (setVar name val (m, lg)))) =
     (if name \<in> set (map fst (Vars m)) then map fst (Vars m) else map fst (Vars m) @ [name])"
    using setVar_names[of name val m lg] by simp
  show ?thesis
    using a b c by (simp add: parseTags_names setVar_distinct setPartial_Vars)
qed

theorem variables_unique_in_first_seen_order_witness:
  "map fst (Vars (fst (parseTags (\<lambda>s. s)
      [\<lparr>Name = ''variable'', Attributes = [\<lparr>AttrName = ''name'', AttrValue = ''b''\<rparr>],
         TagBody = Some \<lparr>Content = ''1'', Inline = False\<rparr>\<rparr>,
       \<lparr>Name = ''variable'', Attributes = [\<lparr>AttrName = ''name'', AttrValue = ''a''\<rparr>],
         TagBody = Some \<lparr>Content = ''2'', Inline = False\<rparr>\<rparr>,
       \<lparr>Name = ''variable'', Attributes = [\<lparr>AttrName = ''name'', AttrValue = ''b''\<rparr>],
         TagBody = Some \<lparr>Content = ''3'', Inline = False\<rparr>\<rparr>]))) = [''b'', ''a'']"
  using variables_unique_in_first_seen_order
    [of "\<lambda>s. s"
        "[\<lparr>Name = ''variable'', Attributes = [\<lparr>AttrName = ''name'', AttrValue = ''b''\<rparr>],
           TagBody = Some \<lparr>Content = ''1'', Inline = False\<rparr>\<rparr>,
          \<lparr>Name = ''variable'', Attributes = [\<lparr>AttrName = ''name'', AttrValue = ''a''\<rparr>],
           TagBody = Some \<lparr>Content = ''2'', Inline = False\<rparr>\<rparr>,
          \<lparr>Name = ''variable'', Attributes = [\<lparr>AttrName = ''name'', AttrValue = ''b''\<rparr>],
           TagBody = Some \<lparr>Content = ''3'', Inline = False\<rparr>\<rparr>]"
        newMarkup "''x''" "''v''" "[]" "\<lparr>Name = ''x'', Attributes = [], TagBody = None\<rparr>"]
  by (simp add: firstSeen_def definedVariables_def definesVariable_def lastNameAttr_def
      attrName_def tagVariable_def newMarkup_def)

text \<open>
  Claim C10. Of several attributes called \<open>name\<close> the last one supplies the name: it is
  what \<open>parseTagNameAttr\<close> returns, and a \<open>partial\<close> or \<open>variable\<close> tag with a body is
  stored under it, by \<open>setPartial\<close> or \<open>setVar\<close>, where a lookup of that name then finds
  the body; without a body the diagnostic names it. When the value of the last such attribute
  is the empty string the name counts as missing: \<open>parseTagNameAttr\<close> returns
  \<open>errSkipTag\<close> with a diagnostic, and the tag is skipped.
\<close>
theorem last_name_attribute_wins:
  assumes "Attributes t = as1 @ a # as2" and "AttrName a = attrName"
    and "\<forall>b \<in> set as2. AttrName b \<noteq> attrName"
  shows "parseTagNameAttr t lg =
           (if AttrValue a = [] then (Inl errSkipTag, lg @ [MissingAttribute (Name t) attrName])
            else (Inr (AttrValue a), lg)) \<and>
         ((Name t = tagPartial \<or> Name t = tagVariable) \<and> AttrValue a = [] \<longrightarrow>
            parseTag wrap (m, lg) t = (m, lg @ [MissingAttribute (Name t) attrName])) \<and>
         ((Name t = tagPartial \<or> Name t = tagVariable) \<and> AttrValue a \<noteq> [] \<and> TagBody t = None \<longrightarrow>
            parseTag wrap (m, lg) t = (m, lg @ [MissingBody (Name t) (AttrValue a)])) \<and>
         (Name t = tagPartial \<and> AttrValue a \<noteq> [] \<and> TagBody t \<noteq> None \<longrightarrow>
            parseTag wrap (m, lg) t = setPartial (AttrValue a) (parseBody t) (m, lg) \<and>
            Partials (fst (parseTag wrap (m, lg) t)) (AttrValue a) = Some (parseBody t)) \<and>
         (Name t = tagVariable \<and> AttrValue a \<noteq> [] \<and> TagBody t \<noteq> None \<longrightarrow>
            parseTag wrap (m, lg) t = setVar (AttrValue a) (parseScriptBody wrap t) (m, lg) \<and>
            map_of (Vars (fst (parseTag wrap (m, lg) t))) (AttrValue a) =
              Some (parseScriptBody wrap t))"
proof -
  have l: "lastNameAttr (Attributes t) = AttrValue a"
    using assms by (simp add: lastNameAttr_last)
  have skip: "(Name t = tagPartial \<or> Name t = tagVariable) \<Longrightarrow> AttrValue a = [] \<Longrightarrow>
      parseTag wrap (m, lg) t = (m, lg @ [MissingAttribute (Name t) attrName])"
    using parseTag_skipped[of t wrap m lg] l by simp
  have nobody: "(Name t = tagPartial \<or> Name t = tagVariable) \<Longrightarrow> AttrValue a \<noteq> [] \<Longrightarrow>
      TagBody t = None \<Longrightarrow> parseTag wrap (m, lg) t = (m, lg @ [MissingBody (Name t) (AttrValue a)])"
    using parseTag_skipped[of t wrap m lg] l by simp
  have part: "Name t = tagPartial \<Longrightarrow> AttrValue a \<noteq> [] \<Longrightarrow> TagBody t \<noteq> None \<Longrightarrow>
      parseTag wrap (m, lg) t = setPartial (AttrValue a) (parseBody t) (m, lg)"
    using parseTag_partial[of t wrap m lg] l by simp
  have part2: "Partials (fst (setPartial (AttrValue a) (parseBody t) (m, lg))) (AttrValue a) =
      Some (parseBody t)"
    by (simp add: setPartial_def Let_def)
  have var: "Name t = tagVariable \<Longrightarrow> AttrValue a \<noteq> [] \<Longrightarrow> TagBody t \<noteq> None \<Longrightarrow>
      parseTag wrap (m, lg) t = setVar (AttrValue a) (parseScriptBody wrap t) (m, lg)"
    using parseTag_variable[of t "AttrValue a" wrap m lg] l by (simp add: definesVariable_def)
  have n: "parseTagNameAttr t lg =
           (if AttrValue a = [] then (Inl errSkipTag, lg @ [MissingAttribute (Name t) attrName])
            else (Inr (AttrValue a), lg))"
    by (simp add: parseTagNameAttr_def l Let_def)
  show ?thesis
    using n skip nobody part part2 var map_of_setVar[of "AttrValue a" "parseScriptBody wrap t" m lg]
    by simp
qed

theorem last_name_attribute_wins_witness:
  "parseTags id
      [\<lparr>Name = ''variable'',
        Attributes = [\<lparr>AttrName = ''name'', AttrValue = ''x''\<rparr>, \<lparr>AttrName = ''name'', AttrValue = ''y''\<rparr>,
                      \<lparr>AttrName = ''other'', AttrValue = ''z''\<rparr>],
        TagBody = Some \<lparr>Content = ''1'', Inline = False\<rparr>\<rparr>]
     = (\<lparr>Filename = [], Skip = [], Body = [], Vars = [(''y'', ''1'')], Partials = Map.empty\<rparr>, [])"
  using last_name_attribute_wins
    [of "\<lparr>Name = ''variable'',
        Attributes = [\<lparr>AttrName = ''name'', AttrValue = ''x''\<rparr>, \<lparr>AttrName = ''name'', AttrValue = ''y''\<rparr>,
                      \<lparr>AttrName = ''other'', AttrValue = ''z''\<rparr>],
        TagBody = Some \<lparr>Content = ''1'', Inline = False\<rparr>\<rparr>"
        "[\<lparr>AttrName = ''name'', AttrValue = ''x''\<rparr>]" "\<lparr>AttrName = ''name'', AttrValue = ''y''\<rparr>"
        "[\<lparr>AttrName = ''other'', AttrValue = ''z''\<rparr>]" "[]" id newMarkup]
  by (simp add: attrName_def tagVariable_def tagPartial_def parseTags_def parseScriptBody_def
      setVar_def vars_find_def newMarkup_def)

section \<open>Properties of \<open>joinWithinRoot\<close>\<close>

subsection \<open>The model of the library on the library's own examples\<close>

text \<open>
  The pairs that the test table of the Go library lists for \<open>Clean\<close> on a
  slash-separated target, and the two-element cases of \<open>Join\<close>.
\<close>

lemma filepath_Clean_examples:
  "filepath_Clean '''' = ''.'' \<and>
   filepath_Clean ''abc'' = ''abc'' \<and>
   filepath_Clean ''abc/def'' = ''abc/def'' \<and>
   filepath_Clean ''.'' = ''.'' \<and>
   filepath_Clean ''..'' = ''..'' \<and>
   filepath_Clean ''../..'' = ''../..'' \<and>
   filepath_Clean ''../../abc'' = ''../../abc'' \<and>
   filepath_Clean ''/abc'' = ''/abc'' \<and>
   filepath_Clean ''/'' = ''/'' \<and>
   filepath_Clean ''abc/'' = ''abc'' \<and>
   filepath_Clean ''./'' = ''.'' \<and>
   filepath_Clean ''../'' = ''..'' \<and>
   filepath_Clean ''../../'' = ''../..'' \<and>
   filepath_Clean ''/abc/'' = ''/abc'' \<and>
   filepath_Clean ''abc//def//ghi'' = ''abc/def/ghi'' \<and>
   filepath_Clean ''//abc'' = ''/abc'' \<and>
   filepath_Clean ''///abc'' = ''/abc'' \<and>
   filepath_Clean ''//abc//'' = ''/abc'' \<and>
   filepath_Clean ''abc//'' = ''abc'' \<and>
   filepath_Clean ''abc/./def'' = ''abc/def'' \<and>
   filepath_Clean ''/./abc/def'' = ''/abc/def'' \<and>
   filepath_Clean ''abc/.'' = ''abc'' \<and>
   filepath_Clean ''abc/def/ghi/../jkl'' = ''abc/def/jkl'' \<and>
   filepath_Clean ''abc/def/../ghi/../jkl'' = ''abc/jkl'' \<and>
   filepath_Clean ''abc/def/..'' = ''abc'' \<and>
   filepath_Clean ''abc/def/../..'' = ''.'' \<and>
   filepath_Clean ''/abc/def/../..'' = ''/'' \<and>
   filepath_Clean ''abc/def/../../..'' = ''..'' \<and>
   filepath_Clean ''/abc/def/../../..'' = ''/'' \<and>
   filepath_Clean ''abc/def/../../../ghi/jkl/../../../mno'' = ''../../mno'' \<and>
   filepath_Clean ''/../abc'' = ''/abc'' \<and>
   filepath_Clean ''abc/./../def'' = ''def'' \<and>
   filepath_Clean ''abc//./../def'' = ''def'' \<and>
   filepath_Clean ''abc/../../././../def'' = ''../../def''"
  by code_simp

lemma filepath_Join_examples:
  "filepath_Join ''a'' ''b'' = ''a/b'' \<and>
   filepath_Join ''a'' '''' = ''a'' \<and>
   filepath_Join '''' ''b'' = ''b'' \<and>
   filepath_Join ''/'' ''a'' = ''/a'' \<and>
   filepath_Join ''/'' '''' = ''/'' \<and>
   filepath_Join ''a/'' ''b'' = ''a/b'' \<and>
   filepath_Join ''a/'' '''' = ''a'' \<and>
   filepath_Join '''' '''' = ''''"
  by code_simp

subsection \<open>Containment of the result\<close>

lemma splitFrom_piece:
  "splitFrom c piece xs = (piece @ hd (splitFrom c [] xs)) # tl (splitFrom c [] xs)"
proof (induction xs arbitrary: piece)
  case Nil show ?case by simp
next
  case (Cons x xs)
  show ?case
  proof (cases "x = c")
    case True then show ?thesis by simp
  next
    case False
    then show ?thesis
      using Cons.IH[of "piece @ [x]"] Cons.IH[of "[x]"] by simp
  qed
qed

lemma splitFrom_nonempty: "splitFrom c piece xs \<noteq> []"
  by (induction xs arbitrary: piece) auto

lemma splitFrom_append_sep:
  "splitFrom c piece (xs @ c # ys) = splitFrom c piece xs @ splitFrom c [] ys"
  by (induction xs arbitrary: piece) auto

lemma splitFrom_no_sep: "c \<notin> set xs \<Longrightarrow> splitFrom c piece xs = [piece @ xs]"
  by (induction xs arbitrary: piece) auto

lemma splitFrom_elems:
  "c \<notin> set piece \<Longrightarrow> e \<in> set (splitFrom c piece xs) \<Longrightarrow> c \<notin> set e"
proof (induction xs arbitrary: piece)
  case Nil then show ?case by simp
next
  case (Cons x xs)
  show ?case
  proof (cases "x = c")
    case True
    with Cons.prems have "e = piece \<or> e \<in> set (splitFrom c [] xs)" by simp
    then show ?thesis using Cons.prems(1) Cons.IH[of "[]"] by auto
  next
    case False
    with Cons.prems have "e \<in> set (splitFrom c (piece @ [x]) xs)" by simp
    then show ?thesis using Cons.IH[of "piece @ [x]"] Cons.prems(1) False by simp
  qed
qed

lemma Split_elems: "e \<in> set (strings_Split s c) \<Longrightarrow> c \<notin> set e"
  unfolding strings_Split_def using splitFrom_elems[of c "[]" e s] by simp

lemma Split_Join:
  "es \<noteq> [] \<Longrightarrow> \<forall>e \<in> set es. c \<notin> set e \<Longrightarrow> strings_Split (strings_Join es c) c = es"
proof (induction es c rule: strings_Join.induct)
  case (1 c) then show ?case by simp
next
  case (2 p c)
  then show ?case by (simp add: strings_Split_def splitFrom_no_sep)
next
  case (3 p q ps c)
  then have ih: "splitFrom c [] (strings_Join (q # ps) c) = q # ps"
    by (simp add: strings_Split_def)
  have "c \<notin> set p" using 3 by simp
  then show ?case
    by (simp add: strings_Split_def splitFrom_append_sep splitFrom_no_sep ih)
qed

lemma Split_append_sep:
  "strings_Split (xs @ c # ys) c = strings_Split xs c @ strings_Split ys c"
  by (simp add: strings_Split_def splitFrom_append_sep)

lemma Split_Nil: "strings_Split [] c = [[]]"
  by (simp add: strings_Split_def)

lemma cleanElems_append:
  "cleanElems r out (xs @ ys) = cleanElems r (cleanElems r out xs) ys"
  by (induction xs arbitrary: out) auto

lemma cleanElems_no_dotdot:
  "''..'' \<notin> set xs \<Longrightarrow>
     cleanElems r out xs = out @ filter (\<lambda>e. e \<noteq> [] \<and> e \<noteq> ''.'') xs"
  by (induction xs arbitrary: out) auto

lemma cleanElems_subset: "set (cleanElems r out xs) \<subseteq> set out \<union> set xs"
proof (induction xs arbitrary: out)
  case Nil show ?case by simp
next
  case (Cons e es)
  have b: "set (butlast out) \<subseteq> set out" by (meson in_set_butlastD subsetI)
  show ?case
    using Cons.IH[of out] Cons.IH[of "butlast out"] Cons.IH[of "out @ [''..'']"]
      Cons.IH[of "out @ [e]"] b
    by (auto split: if_splits)
qed

lemma cleanElems_shape:
  assumes "out = replicate k ''..'' @ reals" and "r \<longrightarrow> k = 0"
    and "\<forall>e \<in> set reals. e \<noteq> [] \<and> e \<noteq> ''.'' \<and> e \<noteq> ''..''"
  shows "\<exists>k' reals'. cleanElems r out xs = replicate k' ''..'' @ reals' \<and> (r \<longrightarrow> k' = 0) \<and>
           (\<forall>e \<in> set reals'. e \<noteq> [] \<and> e \<noteq> ''.'' \<and> e \<noteq> ''..'')"
  using assms
proof (induction xs arbitrary: out k reals)
  case Nil
  then show ?case by auto
next
  case (Cons e es)
  show ?case
  proof (cases "e = [] \<or> e = ''.''")
    case True
    then show ?thesis using Cons.IH[OF Cons.prems] by simp
  next
    case notdot: False
    show ?thesis
    proof (cases "e = ''..''")
      case False
      have "out @ [e] = replicate k ''..'' @ (reals @ [e])" using Cons.prems(1) by simp
      moreover have "\<forall>x \<in> set (reals @ [e]). x \<noteq> [] \<and> x \<noteq> ''.'' \<and> x \<noteq> ''..''"
        using Cons.prems(3) notdot False by simp
      ultimately show ?thesis
        using Cons.IH[of "out @ [e]" k "reals @ [e]"] Cons.prems(2) notdot False by simp
    next
      case dd: True
      show ?thesis
      proof (cases "reals = []")
        case True
        then have o: "out = replicate k ''..''" using Cons.prems(1) by simp
        then have nb: "\<not> (out \<noteq> [] \<and> last out \<noteq> ''..'')" by (cases k) auto
        show ?thesis
        proof (cases r)
          case True
          have eq: "cleanElems r out (e # es) = cleanElems r out es"
            using True nb dd by auto
          show ?thesis unfolding eq by (rule Cons.IH[OF Cons.prems])
        next
          case False
          have sh: "out @ [''..''] = replicate (Suc k) ''..'' @ []"
            using o by (simp add: replicate_append_same)
          have eq: "cleanElems r out (e # es) = cleanElems r (out @ [''..'']) es"
            using False nb dd by auto
          show ?thesis unfolding eq
            by (rule Cons.IH[OF sh]) (use False in simp_all)
        qed
      next
        case False
        then have l: "out \<noteq> [] \<and> last out \<noteq> ''..''" using Cons.prems(1,3) by simp
        have "butlast out = replicate k ''..'' @ butlast reals"
          using False Cons.prems(1) by (simp add: butlast_append)
        moreover have "\<forall>x \<in> set (butlast reals). x \<noteq> [] \<and> x \<noteq> ''.'' \<and> x \<noteq> ''..''"
          using Cons.prems(3) by (meson in_set_butlastD)
        ultimately show ?thesis
          using Cons.IH[of "butlast out" k "butlast reals"] Cons.prems(2) l dd by simp
      qed
    qed
  qed
qed

lemma realElemD: "realElem e \<Longrightarrow> e \<noteq> [] \<and> e \<noteq> ''.'' \<and> e \<noteq> ''..''"
  by (simp add: realElem_def)

lemma not_realElem_dotdot: "\<not> realElem ''..''"
  by (simp add: realElem_def)

lemma dotdot_no_sep: "Separator \<notin> set ''..''"
  by (simp add: Separator_def)

lemma dotdot_good: "''..'' \<noteq> [] \<and> ''..'' \<noteq> ''.''"
  by simp

lemma cleanElems_Split_shape:
  "\<exists>k reals. cleanElems r [] (strings_Split s Separator) = replicate k ''..'' @ reals \<and>
      (r \<longrightarrow> k = 0) \<and> (\<forall>e \<in> set reals. realElem e \<and> Separator \<notin> set e)"
proof -
  obtain k reals where c: "cleanElems r [] (strings_Split s Separator) = replicate k ''..'' @ reals"
    and k: "r \<longrightarrow> k = 0" and g: "\<forall>e \<in> set reals. e \<noteq> [] \<and> e \<noteq> ''.'' \<and> e \<noteq> ''..''"
    using cleanElems_shape[of "[]" 0 "[]" r "strings_Split s Separator"] by auto
  have "set reals \<subseteq> set (strings_Split s Separator)"
    using cleanElems_subset[of r "[]" "strings_Split s Separator"] c by auto
  then have "\<forall>e \<in> set reals. Separator \<notin> set e" using Split_elems by blast
  moreover have "\<forall>e \<in> set reals. realElem e" using g unfolding realElem_def by blast
  ultimately show ?thesis using c k by blast
qed

lemma in_replicate_append: "e \<in> set (replicate k d @ reals) \<Longrightarrow> e = d \<or> e \<in> set reals"
  by auto

lemma dots_reals_no_sep:
  assumes "\<forall>e \<in> set reals. realElem e \<and> Separator \<notin> set e"
  shows "\<forall>e \<in> set (replicate k ''..'' @ reals). Separator \<notin> set e"
proof
  fix e assume "e \<in> set (replicate k ''..'' @ reals)"
  then have "e = ''..'' \<or> e \<in> set reals" by (rule in_replicate_append)
  then show "Separator \<notin> set e" using assms dotdot_no_sep by blast
qed

lemma dots_reals_good:
  assumes "\<forall>e \<in> set reals. realElem e \<and> Separator \<notin> set e"
  shows "\<forall>e \<in> set (replicate k ''..'' @ reals). e \<noteq> [] \<and> e \<noteq> ''.''"
proof
  fix e assume "e \<in> set (replicate k ''..'' @ reals)"
  then have "e = ''..'' \<or> e \<in> set reals" by (rule in_replicate_append)
  then show "e \<noteq> [] \<and> e \<noteq> ''.''" using assms realElemD dotdot_good by blast
qed

lemma Join_hd:
  "es \<noteq> [] \<Longrightarrow> hd es \<noteq> [] \<Longrightarrow> strings_Join es c \<noteq> [] \<and> hd (strings_Join es c) = hd (hd es)"
  by (induction es c rule: strings_Join.induct) auto

lemma filter_id: "\<forall>e \<in> set es. P e \<Longrightarrow> filter P es = es"
  by (induction es) auto

lemma Split_Join_or_Nil:
  "\<forall>e \<in> set es. c \<notin> set e \<Longrightarrow>
     strings_Split (strings_Join es c) c = (if es = [] then [[]] else es)"
  by (simp add: Split_Join Split_Nil)

lemma Split_rooted: "strings_Split (c # s) c = [] # strings_Split s c"
  by (simp add: strings_Split_def)

lemma Clean_Nil: "filepath_Clean [] = ''.''"
  by (simp add: filepath_Clean_def)

lemma Clean_rooted:
  "isRooted path \<Longrightarrow> filepath_Clean path =
     Separator # strings_Join (cleanElems True [] (strings_Split path Separator)) Separator"
  by (auto simp: filepath_Clean_def Let_def isRooted_def)

lemma Clean_relative:
  "path \<noteq> [] \<Longrightarrow> \<not> isRooted path \<Longrightarrow> filepath_Clean path =
     (if cleanElems False [] (strings_Split path Separator) = [] then ''.''
      else strings_Join (cleanElems False [] (strings_Split path Separator)) Separator)"
  by (simp add: filepath_Clean_def Let_def)

lemma Clean_cases:
  obtains (dot) "filepath_Clean path = ''.''" "\<not> isRooted path"
      "cleanElems (isRooted path) [] (strings_Split path Separator) = []"
  | (rooted) out where "isRooted path"
      "out = cleanElems True [] (strings_Split path Separator)"
      "filepath_Clean path = Separator # strings_Join out Separator"
      "\<forall>e \<in> set out. realElem e \<and> Separator \<notin> set e"
  | (relative) k reals where "\<not> isRooted path"
      "cleanElems False [] (strings_Split path Separator) = replicate k ''..'' @ reals"
      "replicate k ''..'' @ reals \<noteq> []"
      "filepath_Clean path = strings_Join (replicate k ''..'' @ reals) Separator"
      "\<forall>e \<in> set reals. realElem e \<and> Separator \<notin> set e"
proof (cases "path = []")
  case True
  have "\<not> isRooted path" using True by (simp add: isRooted_def)
  moreover have "cleanElems (isRooted path) [] (strings_Split path Separator) = []"
    using True by (simp add: Split_Nil)
  ultimately show ?thesis using dot True Clean_Nil by blast
next
  case ne: False
  obtain k reals where
    c: "cleanElems (isRooted path) [] (strings_Split path Separator) = replicate k ''..'' @ reals"
    and k: "isRooted path \<longrightarrow> k = 0"
    and g: "\<forall>e \<in> set reals. realElem e \<and> Separator \<notin> set e"
    using cleanElems_Split_shape[of "isRooted path" path] by blast
  show ?thesis
  proof (cases "isRooted path")
    case True
    have "cleanElems True [] (strings_Split path Separator) = reals"
      using c k True by (simp only: replicate_0 append_Nil simp_thms)
    then show ?thesis
      using rooted[of reals] True g Clean_rooted[OF True] by blast
  next
    case False
    have c': "cleanElems False [] (strings_Split path Separator) = replicate k ''..'' @ reals"
      using c False by (simp only: simp_thms)
    show ?thesis
    proof (cases "replicate k ''..'' @ reals = []")
      case True
      have "filepath_Clean path = ''.''"
        unfolding Clean_relative[OF ne False] c' using True by (simp only: if_True simp_thms)
      moreover have "cleanElems (isRooted path) [] (strings_Split path Separator) = []"
        using c True by (simp only:)
      ultimately show ?thesis using dot False by blast
    next
      case nonempty: False
      have "filepath_Clean path = strings_Join (replicate k ''..'' @ reals) Separator"
        unfolding Clean_relative[OF ne False] c' using nonempty by (simp only: if_False simp_thms)
      then show ?thesis using relative[of k reals] False c' g nonempty by blast
    qed
  qed
qed

lemma pathElems_dot: "pathElems ''.'' = []"
  by (simp add: pathElems_def strings_Split_def Separator_def)

lemma pathElems_Clean:
  "pathElems (filepath_Clean path) = cleanElems (isRooted path) [] (strings_Split path Separator)"
proof (cases path rule: Clean_cases)
  case dot
  show ?thesis unfolding dot(1) dot(3) by (rule pathElems_dot)
next
  case (rooted out)
  have ns: "\<forall>e \<in> set out. Separator \<notin> set e" using rooted(4) by blast
  have sp: "strings_Split (strings_Join out Separator) Separator = (if out = [] then [[]] else out)"
    using ns by (rule Split_Join_or_Nil)
  have g: "\<forall>e \<in> set out. e \<noteq> [] \<and> e \<noteq> ''.''" using rooted(4) realElemD by blast
  have f: "filter (\<lambda>e. e \<noteq> [] \<and> e \<noteq> ''.'') out = out" using g by (rule filter_id)
  have "pathElems (filepath_Clean path) =
      filter (\<lambda>e. e \<noteq> [] \<and> e \<noteq> ''.'') ([] # (if out = [] then [[]] else out))"
    unfolding pathElems_def rooted(3) Split_rooted sp ..
  also have "\<dots> = out" using f by (cases "out = []") simp_all
  finally show ?thesis using rooted(1,2) by simp
next
  case (relative k reals)
  let ?out = "replicate k ''..'' @ reals"
  have ns: "\<forall>e \<in> set ?out. Separator \<notin> set e" using relative(5) by (rule dots_reals_no_sep)
  have sp: "strings_Split (strings_Join ?out Separator) Separator = ?out"
    using Split_Join[OF relative(3) ns] .
  have g: "\<forall>e \<in> set ?out. e \<noteq> [] \<and> e \<noteq> ''.''" using relative(5) by (rule dots_reals_good)
  have f: "filter (\<lambda>e. e \<noteq> [] \<and> e \<noteq> ''.'') ?out = ?out" using g by (rule filter_id)
  have "pathElems (filepath_Clean path) = ?out"
    unfolding pathElems_def relative(4) sp f ..
  then show ?thesis using relative(1,2) by simp
qed

lemma not_rooted_Join:
  assumes "es \<noteq> []" and "\<forall>e \<in> set es. e \<noteq> [] \<and> Separator \<notin> set e"
  shows "\<not> isRooted (strings_Join es Separator)"
proof -
  have h: "hd es \<noteq> [] \<and> Separator \<notin> set (hd es)" using assms by simp
  then have j: "strings_Join es Separator \<noteq> [] \<and>
      hd (strings_Join es Separator) = hd (hd es)"
    using Join_hd[OF assms(1)] by simp
  have "hd (hd es) \<noteq> Separator" using h by (cases "hd es") auto
  then show ?thesis using j
    by (cases "strings_Join es Separator") (auto simp: isRooted_def)
qed

lemma isRooted_dot: "\<not> isRooted ''.''"
  by (simp add: isRooted_def Separator_def)

lemma isRooted_Clean: "isRooted (filepath_Clean path) = isRooted path"
proof (cases path rule: Clean_cases)
  case dot
  then show ?thesis using isRooted_dot by simp
next
  case (rooted out)
  then show ?thesis by (simp add: isRooted_def)
next
  case (relative k reals)
  let ?out = "replicate k ''..'' @ reals"
  have "\<forall>e \<in> set ?out. e \<noteq> [] \<and> Separator \<notin> set e"
    using dots_reals_good[OF relative(5), of k] dots_reals_no_sep[OF relative(5), of k] by blast
  then have "\<not> isRooted (strings_Join ?out Separator)"
    using not_rooted_Join[OF relative(3)] by blast
  then show ?thesis using relative(1,4) by simp
qed

lemma stripLoop_replicate:
  "stripLoop (replicate k ''..'' @ rest) (replicate k ''..'' @ ys) = stripLoop rest ys"
  by (induction k) simp_all

lemma stripLoop_stop: "rest = [] \<or> hd rest \<noteq> ''..'' \<Longrightarrow> stripLoop rest ys = ys"
  by (cases rest) auto

lemma stripLoop_dots_reals:
  assumes "\<forall>e \<in> set reals. realElem e"
  shows "stripLoop (replicate k ''..'' @ reals) (replicate k ''..'' @ reals) = reals"
proof -
  have "reals = [] \<or> hd reals \<noteq> ''..''"
    using assms realElemD by (cases reals) auto
  then show ?thesis by (simp only: stripLoop_replicate stripLoop_stop)
qed

lemma filter_dots_reals:
  assumes "\<forall>e \<in> set reals. realElem e"
  shows "filter (\<lambda>e. e \<noteq> ''..'') (replicate k ''..'' @ reals) = reals"
proof -
  have "filter (\<lambda>e. e \<noteq> ''..'') reals = reals"
    using assms realElemD by (intro filter_id) blast
  then show ?thesis by (induction k) simp_all
qed

lemma Nil_not_dotdot: "[] \<noteq> ''..''" "[[]] \<noteq> [''..'']"
  by simp_all

lemma stripped_relpath:
  fixes relpath
  defines "parts \<equiv> strings_Split (filepath_Clean relpath) Separator"
  defines "x \<equiv> strings_Join (stripLoop parts parts) Separator"
  shows "''..'' \<notin> set (strings_Split x Separator) \<and>
         filter (\<lambda>e. e \<noteq> [] \<and> e \<noteq> ''.'') (strings_Split x Separator) =
           filter (\<lambda>e. e \<noteq> ''..'') (pathElems (filepath_Clean relpath)) \<and>
         (\<not> isRooted relpath \<longrightarrow> \<not> isRooted x)"
proof (cases relpath rule: Clean_cases)
  case dot
  have p: "parts = [''.'']" unfolding parts_def dot(1) by (simp add: strings_Split_def Separator_def)
  have x: "x = ''.''" unfolding x_def p by simp
  have s: "strings_Split x Separator = [''.'']" unfolding x by (simp add: strings_Split_def Separator_def)
  show ?thesis unfolding s dot(1) pathElems_dot using isRooted_dot x by simp
next
  case (rooted out)
  define ps where "ps = [] # (if out = [] then [[]] else out)"
  have ns: "\<forall>e \<in> set out. Separator \<notin> set e" using rooted(4) by blast
  have p: "parts = ps"
    unfolding parts_def ps_def rooted(3) Split_rooted using Split_Join_or_Nil[OF ns] by simp
  have st: "stripLoop ps ps = ps" unfolding ps_def by (rule stripLoop_stop) simp
  have ps_ns: "\<forall>e \<in> set ps. Separator \<notin> set e" using ns unfolding ps_def by auto
  have sx: "strings_Split x Separator = ps"
    unfolding x_def p st using Split_Join[OF _ ps_ns] unfolding ps_def by simp
  have nd: "\<forall>e \<in> set out. e \<noteq> ''..''" using rooted(4) realElemD by blast
  have g: "\<forall>e \<in> set out. e \<noteq> [] \<and> e \<noteq> ''.''" using rooted(4) realElemD by blast
  have a: "''..'' \<notin> set ps" using nd Nil_not_dotdot unfolding ps_def by auto
  have f: "filter (\<lambda>e. e \<noteq> [] \<and> e \<noteq> ''.'') ps = out"
    using filter_id[of out "\<lambda>e. e \<noteq> [] \<and> e \<noteq> ''.''", OF g]
    unfolding ps_def by (cases "out = []") simp_all
  have pe: "pathElems (filepath_Clean relpath) = out"
    unfolding pathElems_Clean using rooted(1,2) by simp
  have f2: "filter (\<lambda>e. e \<noteq> ''..'') out = out" using nd by (rule filter_id)
  show ?thesis unfolding sx pe f f2 using a rooted(1) by simp
next
  case (relative k reals)
  let ?out = "replicate k ''..'' @ reals"
  have r: "\<forall>e \<in> set reals. realElem e" using relative(5) by blast
  have ns: "\<forall>e \<in> set reals. Separator \<notin> set e" using relative(5) by blast
  have p: "parts = ?out"
    unfolding parts_def relative(4)
    using Split_Join[OF relative(3) dots_reals_no_sep[OF relative(5)]] .
  have x: "x = strings_Join reals Separator"
    unfolding x_def p stripLoop_dots_reals[OF r] ..
  have sx: "strings_Split x Separator = (if reals = [] then [[]] else reals)"
    unfolding x using ns by (rule Split_Join_or_Nil)
  have nd: "\<forall>e \<in> set reals. e \<noteq> ''..''" using r realElemD by blast
  have g: "\<forall>e \<in> set reals. e \<noteq> [] \<and> e \<noteq> ''.''" using r realElemD by blast
  have a: "''..'' \<notin> set (if reals = [] then [[]] else reals)"
    using nd Nil_not_dotdot by (cases "reals = []") auto
  have f: "filter (\<lambda>e. e \<noteq> [] \<and> e \<noteq> ''.'') (if reals = [] then [[]] else reals) = reals"
    using filter_id[of reals "\<lambda>e. e \<noteq> [] \<and> e \<noteq> ''.''", OF g] by (cases "reals = []") simp_all
  have pe: "pathElems (filepath_Clean relpath) = ?out"
    unfolding pathElems_Clean using relative(1,2) by simp
  have nr: "\<not> isRooted x"
  proof (cases "reals = []")
    case True
    then show ?thesis unfolding x by (simp add: isRooted_def)
  next
    case False
    have "\<forall>e \<in> set reals. e \<noteq> [] \<and> Separator \<notin> set e" using g ns by blast
    then show ?thesis unfolding x using not_rooted_Join[OF False] by blast
  qed
  show ?thesis unfolding sx pe f filter_dots_reals[OF r] using a nr by simp
qed

lemma isRooted_append: "root \<noteq> [] \<Longrightarrow> isRooted (root @ ys) = isRooted root"
  by (cases root) (simp_all add: isRooted_def)

lemma pathElems_Nil: "pathElems [] = []"
  by (simp add: pathElems_def Split_Nil)

lemma pathElems_joinWithinRoot:
  "pathElems (joinWithinRoot root relpath) =
     pathElems (filepath_Clean root) @
     filter (\<lambda>e. e \<noteq> ''..'') (pathElems (filepath_Clean relpath))"
proof -
  define parts where "parts = strings_Split (filepath_Clean relpath) Separator"
  define x where "x = strings_Join (stripLoop parts parts) Separator"
  have j: "joinWithinRoot root relpath = filepath_Join root x"
    by (simp add: joinWithinRoot_def Let_def parts_def x_def)
  have sx: "''..'' \<notin> set (strings_Split x Separator)"
    and fx: "filter (\<lambda>e. e \<noteq> [] \<and> e \<noteq> ''.'') (strings_Split x Separator) =
           filter (\<lambda>e. e \<noteq> ''..'') (pathElems (filepath_Clean relpath))"
    using stripped_relpath[of relpath] unfolding parts_def x_def by blast+
  show ?thesis
  proof (cases "root = []")
    case False
    have "pathElems (filepath_Join root x) =
        cleanElems (isRooted root) [] (strings_Split root Separator @ strings_Split x Separator)"
      using False by (simp add: filepath_Join_def pathElems_Clean isRooted_append Split_append_sep)
    also have "\<dots> = cleanElems (isRooted root) [] (strings_Split root Separator) @
        filter (\<lambda>e. e \<noteq> [] \<and> e \<noteq> ''.'') (strings_Split x Separator)"
      by (simp only: cleanElems_append cleanElems_no_dotdot[OF sx])
    finally show ?thesis unfolding j fx pathElems_Clean .
  next
    case True
    have r: "pathElems (filepath_Clean root) = []" unfolding True Clean_Nil by (rule pathElems_dot)
    show ?thesis
    proof (cases "x = []")
      case xe: True
      have "filter (\<lambda>e. e \<noteq> [] \<and> e \<noteq> ''.'') (strings_Split x Separator) = []"
        unfolding xe by (simp add: Split_Nil)
      then show ?thesis unfolding j r using True xe fx by (simp add: filepath_Join_def pathElems_Nil)
    next
      case False
      have "pathElems (filepath_Join root x) = cleanElems (isRooted x) [] (strings_Split x Separator)"
        using True False by (simp add: filepath_Join_def pathElems_Clean)
      also have "\<dots> = filter (\<lambda>e. e \<noteq> [] \<and> e \<noteq> ''.'') (strings_Split x Separator)"
        by (simp only: cleanElems_no_dotdot[OF sx] append_Nil)
      finally show ?thesis unfolding j r fx by simp
    qed
  qed
qed

lemma isRooted_joinWithinRoot:
  assumes "root \<noteq> [] \<or> \<not> isRooted relpath"
  shows "isRooted (joinWithinRoot root relpath) = isRooted (filepath_Clean root)"
proof -
  define parts where "parts = strings_Split (filepath_Clean relpath) Separator"
  define x where "x = strings_Join (stripLoop parts parts) Separator"
  have j: "joinWithinRoot root relpath = filepath_Join root x"
    by (simp add: joinWithinRoot_def Let_def parts_def x_def)
  have rx: "\<not> isRooted relpath \<longrightarrow> \<not> isRooted x"
    using stripped_relpath[of relpath] unfolding parts_def x_def by blast
  show ?thesis
  proof (cases "root = []")
    case False
    then show ?thesis unfolding j
      by (simp add: filepath_Join_def isRooted_Clean isRooted_append)
  next
    case True
    then have nx: "\<not> isRooted x" using assms rx by blast
    have nr: "\<not> isRooted (filepath_Clean root)"
      unfolding True Clean_Nil by (rule isRooted_dot)
    have "\<not> isRooted (filepath_Join root x)"
    proof (cases "x = []")
      case xe: True
      then show ?thesis using True by (simp add: filepath_Join_def isRooted_def)
    next
      case False
      then show ?thesis using True nx by (simp add: filepath_Join_def isRooted_Clean)
    qed
    then show ?thesis unfolding j using nr by blast
  qed
qed

text \<open>
  Claim C9. For every root and every relative path (more generally, whenever the root is not
  empty or the path is not rooted) the result of \<open>joinWithinRoot\<close> lies within the root:
  its elements are those of the cleaned root followed by the elements of the cleaned
  relative path without its leading \<open>..\<close> elements, so none of the added elements is
  \<open>..\<close>.
\<close>
theorem joinWithinRoot_within_root:
  assumes "root \<noteq> [] \<or> \<not> isRooted relpath"
  shows "withinRoot root (joinWithinRoot root relpath) \<and>
         pathElems (joinWithinRoot root relpath) =
           pathElems (filepath_Clean root) @
           filter (\<lambda>e. e \<noteq> ''..'') (pathElems (filepath_Clean relpath))"
proof -
  let ?r = "pathElems (filepath_Clean root)"
  let ?s = "filter (\<lambda>e. e \<noteq> ''..'') (pathElems (filepath_Clean relpath))"
  have e: "pathElems (joinWithinRoot root relpath) = ?r @ ?s" by (rule pathElems_joinWithinRoot)
  have "''..'' \<notin> set ?s" by simp
  then have "''..'' \<notin> set (drop (length ?r) (?r @ ?s))" by simp
  moreover have "prefix ?r (?r @ ?s)" by simp
  ultimately have "withinRoot root (joinWithinRoot root relpath)"
    unfolding withinRoot_def Let_def e using isRooted_joinWithinRoot[OF assms] by blast
  then show ?thesis using e by blast
qed

theorem joinWithinRoot_within_root_witness:
  "joinWithinRoot ''out'' ''a/../../../etc/x'' = ''out/etc/x'' \<and>
   withinRoot ''out'' ''out/etc/x''"
  using joinWithinRoot_within_root[of "''out''" "''a/../../../etc/x''"]
  by (simp add: joinWithinRoot_def filepath_Join_def filepath_Clean_def strings_Split_def
      isRooted_def Separator_def Let_def)

section \<open>Properties of the tokenizer\<close>

subsection \<open>The model on the entries of \<open>lexTests\<close>\<close>

text \<open>
  Every entry of the table \<open>lexTests\<close>: the input, scanned with the default delimiters,
  gives the kinds and texts the test expects.
\<close>

lemma lexTest_empty:
  "lex ([]) [] [] =
     Some [(tokenEOF, [])]"
  by code_simp

lemma lexTest_whitespace:
  "lex ('' '' @ [newline] @ [tab]) [] [] =
     Some [(tokenEOF, [])]"
  by code_simp

lemma lexTest_comments:
  "lex (''# this is a comment'') [] [] =
     Some [(tokenEOF, [])]"
  by code_simp

lemma lexTest_multiline_comments:
  "lex (''# line1'' @ [newline] @ ''#line2'') [] [] =
     Some [(tokenEOF, [])]"
  by code_simp

lemma lexTest_empty_tag:
  "lex (''tag'') [] [] =
     Some [(tokenIdentifier, ''tag''), (tokenEOF, [])]"
  by code_simp

lemma lexTest_dash_within_tag:
  "lex (''tag-1'') [] [] =
     Some [(tokenIdentifier, ''tag-1''), (tokenEOF, [])]"
  by code_simp

lemma lexTest_single_attribute:
  "lex (''tag -attr='' @ [quote] @ ''value'' @ [quote]) [] [] =
     Some [(tokenIdentifier, ''tag''), (tokenSpace, '' ''), (tokenAttrDeclare, ''-''), (tokenIdentifier, ''attr''), (tokenAssign, ''=''), (tokenString, [quote] @ ''value'' @ [quote]), (tokenEOF, [])]"
  by code_simp

lemma lexTest_multiple_attributes:
  "lex (''tag -attr1='' @ [quote] @ ''1'' @ [quote] @ '' -attr2='' @ [quote] @ ''2'' @ [quote]) [] [] =
     Some [(tokenIdentifier, ''tag''), (tokenSpace, '' ''), (tokenAttrDeclare, ''-''), (tokenIdentifier, ''attr1''), (tokenAssign, ''=''), (tokenString, [quote] @ ''1'' @ [quote]), (tokenSpace, '' ''), (tokenAttrDeclare, ''-''), (tokenIdentifier, ''attr2''), (tokenAssign, ''=''), (tokenString, [quote] @ ''2'' @ [quote]), (tokenEOF, [])]"
  by code_simp

lemma lexTest_empty_attribute_value:
  "lex (''tag -attr='' @ [quote] @ [quote]) [] [] =
     Some [(tokenIdentifier, ''tag''), (tokenSpace, '' ''), (tokenAttrDeclare, ''-''), (tokenIdentifier, ''attr''), (tokenAssign, ''=''), (tokenString, [quote] @ [quote]), (tokenEOF, [])]"
  by code_simp

lemma lexTest_attribute_after_spaces:
  "lex (''tag '' @ [tab] @ '' -attr='' @ [quote] @ ''1'' @ [quote]) [] [] =
     Some [(tokenIdentifier, ''tag''), (tokenSpace, '' '' @ [tab] @ '' ''), (tokenAttrDeclare, ''-''), (tokenIdentifier, ''attr''), (tokenAssign, ''=''), (tokenString, [quote] @ ''1'' @ [quote]), (tokenEOF, [])]"
  by code_simp

lemma lexTest_attributes_separated_by_spaces:
  "lex (''tag -attr='' @ [quote] @ ''1'' @ [quote] @ '' '' @ [tab] @ [tab] @ '' -attr='' @ [quote] @ ''2'' @ [quote]) [] [] =
     Some [(tokenIdentifier, ''tag''), (tokenSpace, '' ''), (tokenAttrDeclare, ''-''), (tokenIdentifier, ''attr''), (tokenAssign, ''=''), (tokenString, [quote] @ ''1'' @ [quote]), (tokenSpace, '' '' @ [tab] @ [tab] @ '' ''), (tokenAttrDeclare, ''-''), (tokenIdentifier, ''attr''), (tokenAssign, ''=''), (tokenString, [quote] @ ''2'' @ [quote]), (tokenEOF, [])]"
  by code_simp

lemma lexTest_spaces_after_empty_tag:
  "lex (''tag '' @ [tab] @ [tab]) [] [] =
     Some [(tokenIdentifier, ''tag''), (tokenSpace, '' '' @ [tab] @ [tab]), (tokenEOF, [])]"
  by code_simp

lemma lexTest_inline_body:
  "lex (''tag << test >>'') [] [] =
     Some [(tokenIdentifier, ''tag''), (tokenSpace, '' ''), (tokenLeftDelim, ''<<''), (tokenBody, '' test ''), (tokenRightDelim, ''>>''), (tokenEOF, [])]"
  by code_simp

lemma lexTest_multiline_body:
  "lex (''tag << '' @ [tab] @ [newline] @ '' test '' @ [newline] @ ''>>'') [] [] =
     Some [(tokenIdentifier, ''tag''), (tokenSpace, '' ''), (tokenLeftDelim, ''<<''), (tokenNewline, [newline]), (tokenBody, '' test ''), (tokenNewline, [newline]), (tokenRightDelim, ''>>''), (tokenEOF, [])]"
  by code_simp

lemma lexTest_attribute_and_body:
  "lex (''tag -a='' @ [quote] @ ''1'' @ [quote] @ '' << test >>'') [] [] =
     Some [(tokenIdentifier, ''tag''), (tokenSpace, '' ''), (tokenAttrDeclare, ''-''), (tokenIdentifier, ''a''), (tokenAssign, ''=''), (tokenString, [quote] @ ''1'' @ [quote]), (tokenSpace, '' ''), (tokenLeftDelim, ''<<''), (tokenBody, '' test ''), (tokenRightDelim, ''>>''), (tokenEOF, [])]"
  by code_simp

lemma lexTest_attribute_and_body_spaces:
  "lex (''tag -a='' @ [quote] @ ''1'' @ [quote] @ '' '' @ [tab] @ [tab] @ '' << test >>'') [] [] =
     Some [(tokenIdentifier, ''tag''), (tokenSpace, '' ''), (tokenAttrDeclare, ''-''), (tokenIdentifier, ''a''), (tokenAssign, ''=''), (tokenString, [quote] @ ''1'' @ [quote]), (tokenSpace, '' '' @ [tab] @ [tab] @ '' ''), (tokenLeftDelim, ''<<''), (tokenBody, '' test ''), (tokenRightDelim, ''>>''), (tokenEOF, [])]"
  by code_simp

lemma lexTest_multiple_empty_tags:
  "lex (''tag1'' @ [newline] @ ''tag2'') [] [] =
     Some [(tokenIdentifier, ''tag1''), (tokenNewline, [newline]), (tokenIdentifier, ''tag2''), (tokenEOF, [])]"
  by code_simp

lemma lexTest_multiple_tags_with_attr:
  "lex (''tag1 -a='' @ [quote] @ ''1'' @ [quote] @ [newline] @ ''tag2'') [] [] =
     Some [(tokenIdentifier, ''tag1''), (tokenSpace, '' ''), (tokenAttrDeclare, ''-''), (tokenIdentifier, ''a''), (tokenAssign, ''=''), (tokenString, [quote] @ ''1'' @ [quote]), (tokenNewline, [newline]), (tokenIdentifier, ''tag2''), (tokenEOF, [])]"
  by code_simp

lemma lexTest_multiple_tags_inline_body:
  "lex (''tag1 <<body>>'' @ [newline] @ ''tag2'') [] [] =
     Some [(tokenIdentifier, ''tag1''), (tokenSpace, '' ''), (tokenLeftDelim, ''<<''), (tokenBody, ''body''), (tokenRightDelim, ''>>''), (tokenNewline, [newline]), (tokenIdentifier, ''tag2''), (tokenEOF, [])]"
  by code_simp

lemma lexTest_multiple_tags_multiline_body:
  "lex (''tag1 <<'' @ [newline] @ ''body'' @ [newline] @ ''>>'' @ [newline] @ ''tag2'') [] [] =
     Some [(tokenIdentifier, ''tag1''), (tokenSpace, '' ''), (tokenLeftDelim, ''<<''), (tokenNewline, [newline]), (tokenBody, ''body''), (tokenNewline, [newline]), (tokenRightDelim, ''>>''), (tokenNewline, [newline]), (tokenIdentifier, ''tag2''), (tokenEOF, [])]"
  by code_simp

lemma lexTest_multiple_tags_attr_and_body:
  "lex (''tag1 -a='' @ [quote] @ ''1'' @ [quote] @ '' <<body>>'' @ [newline] @ ''tag2'') [] [] =
     Some [(tokenIdentifier, ''tag1''), (tokenSpace, '' ''), (tokenAttrDeclare, ''-''), (tokenIdentifier, ''a''), (tokenAssign, ''=''), (tokenString, [quote] @ ''1'' @ [quote]), (tokenSpace, '' ''), (tokenLeftDelim, ''<<''), (tokenBody, ''body''), (tokenRightDelim, ''>>''), (tokenNewline, [newline]), (tokenIdentifier, ''tag2''), (tokenEOF, [])]"
  by code_simp

lemma lexTest_spaces_after_multiline_left_delimiter:
  "lex (''tag << '' @ [tab] @ '' '' @ [newline] @ ''test'' @ [newline] @ ''>>'') [] [] =
     Some [(tokenIdentifier, ''tag''), (tokenSpace, '' ''), (tokenLeftDelim, ''<<''), (tokenNewline, [newline]), (tokenBody, ''test''), (tokenNewline, [newline]), (tokenRightDelim, ''>>''), (tokenEOF, [])]"
  by code_simp

lemma lexTest_spaces_after_inline_right_delimiter:
  "lex (''tag <<test>> '' @ [tab] @ '' '' @ [newline]) [] [] =
     Some [(tokenIdentifier, ''tag''), (tokenSpace, '' ''), (tokenLeftDelim, ''<<''), (tokenBody, ''test''), (tokenRightDelim, ''>>''), (tokenNewline, [newline]), (tokenEOF, [])]"
  by code_simp

lemma lexTest_spaces_after_multiline_right_delimiter:
  "lex (''tag <<'' @ [newline] @ ''test'' @ [newline] @ ''>> '' @ [tab] @ '' '' @ [newline]) [] [] =
     Some [(tokenIdentifier, ''tag''), (tokenSpace, '' ''), (tokenLeftDelim, ''<<''), (tokenNewline, [newline]), (tokenBody, ''test''), (tokenNewline, [newline]), (tokenRightDelim, ''>>''), (tokenNewline, [newline]), (tokenEOF, [])]"
  by code_simp

lemma lexTest_delimiters_within_multiline_body:
  "lex (''tag <<'' @ [newline] @ ''<<>>'' @ [newline] @ ''>>'') [] [] =
     Some [(tokenIdentifier, ''tag''), (tokenSpace, '' ''), (tokenLeftDelim, ''<<''), (tokenNewline, [newline]), (tokenBody, ''<<>>''), (tokenNewline, [newline]), (tokenRightDelim, ''>>''), (tokenEOF, [])]"
  by code_simp

lemma lexTest_invalid_character:
  "lex (''*'') [] [] =
     Some [(tokenError, ''invalid character U+002A '' @ [CHR 0x27] @ ''*'' @ [CHR 0x27])]"
  by code_simp

lemma lexTest_invalid_character_within_identifier:
  "lex (''t*g'') [] [] =
     Some [(tokenError, ''invalid character U+002A '' @ [CHR 0x27] @ ''*'' @ [CHR 0x27] @ '' within tag identifier, space or newline expected'')]"
  by code_simp

lemma lexTest_dash_at_start:
  "lex (''-tag'') [] [] =
     Some [(tokenError, ''invalid character U+002D '' @ [CHR 0x27] @ ''-'' @ [CHR 0x27])]"
  by code_simp

lemma lexTest_dash_at_end:
  "lex (''tag-'') [] [] =
     Some [(tokenError, ''invalid character U+002D '' @ [CHR 0x27] @ ''-'' @ [CHR 0x27] @ '' at the end of the identifier'')]"
  by code_simp

lemma lexTest_tag_must_start_on_newline:
  "lex ('' tag'') [] [] =
     Some [(tokenError, ''misplaced character U+0074 '' @ [CHR 0x27] @ ''t'' @ [CHR 0x27] @ '', tag identifier must start on the newline'')]"
  by code_simp

subsection \<open>Whitespace and comments\<close>

lemma Join_Cons: "qs \<noteq> [] \<Longrightarrow> strings_Join (p # qs) c = p @ c # strings_Join qs c"
  by (cases qs) simp_all

lemma Join_splitFrom: "strings_Join (splitFrom c piece s) c = piece @ s"
proof (induction s arbitrary: piece)
  case Nil show ?case by simp
next
  case (Cons x xs)
  show ?case
  proof (cases "x = c")
    case True
    then show ?thesis using Cons.IH[of "[]"] by (simp add: Join_Cons splitFrom_nonempty)
  next
    case False
    then show ?thesis using Cons.IH[of "piece @ [x]"] by simp
  qed
qed

lemma Join_Split: "strings_Join (strings_Split s c) c = s"
  by (simp add: strings_Split_def Join_splitFrom)

lemma newline_not_space: "\<not> isSpace newline"
  by (simp add: isSpace_def newline_def tab_def)

lemma hash_not_space: "\<not> isSpace CHR ''#''"
  by (simp add: isSpace_def tab_def)

lemma hash_not_newline: "CHR ''#'' \<noteq> newline"
  by (simp add: newline_def)

lemma dropWhile_until:
  "c \<notin> set xs \<Longrightarrow> dropWhile (\<lambda>x. x \<noteq> c) (xs @ c # rest) = c # rest"
  by (induction xs) auto

lemma dropWhile_all: "\<forall>x \<in> set xs. P x \<Longrightarrow> dropWhile P xs = []"
  by (induction xs) auto

lemma dropWhile_spaces_then:
  "\<forall>x \<in> set xs. P x \<Longrightarrow> \<not> P c \<Longrightarrow> dropWhile P (xs @ c # rest) = c # rest"
  by (induction xs) auto

lemma lexFrom_comment:
  "lexFrom left right LineStart (CHR ''#'' # cs) =
     lexFrom left right LineStart (drop 1 (dropWhile (\<lambda>c. c \<noteq> newline) cs))"
  by (subst lexFrom.simps(1)) simp

lemma lexFrom_blank_line:
  assumes "\<forall>x \<in> set ws. isSpace x"
  shows "lexFrom left right LineStart (ws @ newline # rest) = lexFrom left right LineStart rest"
proof -
  have d: "dropWhile isSpace (ws @ newline # rest) = newline # rest"
    using assms newline_not_space by (rule dropWhile_spaces_then)
  show ?thesis
  proof (cases ws)
    case Nil
    have d0: "dropWhile isSpace (newline # rest) = newline # rest"
      using d Nil by simp
    show ?thesis unfolding Nil append_Nil
      apply (subst lexFrom.simps(1))
      apply (simp only: list.case hash_not_newline[symmetric] if_False d0 if_True simp_thms)
      done
  next
    case (Cons c cs)
    have nh: "c \<noteq> CHR ''#''" using assms Cons hash_not_space by auto
    have d1: "dropWhile isSpace (c # cs @ newline # rest) = newline # rest"
      using d Cons by simp
    show ?thesis unfolding Cons append_Cons
      apply (subst lexFrom.simps(1))
      apply (simp only: list.case nh if_False d1 if_True simp_thms)
      done
  qed
qed

lemma lexFrom_blank_end:
  assumes "\<forall>x \<in> set ws. isSpace x"
  shows "lexFrom left right LineStart ws = Some [(tokenEOF, [])]"
proof (cases ws)
  case Nil
  then show ?thesis by (subst lexFrom.simps(1)) simp
next
  case (Cons c cs)
  have d: "dropWhile isSpace (c # cs) = []" using assms Cons by (intro dropWhile_all) simp
  have nh: "c \<noteq> CHR ''#''" using assms Cons hash_not_space by auto
  show ?thesis unfolding Cons
    apply (subst lexFrom.simps(1))
    apply (simp only: list.case nh if_False d)
    done
qed

lemma blankOrComment_cases:
  assumes "blankOrComment line"
  obtains (comment) cs where "line = CHR ''#'' # cs" | (blank) "\<forall>x \<in> set line. isSpace x"
  using assms by (cases line) (auto simp: blankOrComment_def list_all_iff)

lemma lexFrom_Nil: "lexFrom left right LineStart [] = Some [(tokenEOF, [])]"
  by (subst lexFrom.simps(1)) simp

lemma lexFrom_skip_line:
  assumes "newline \<notin> set line" and "blankOrComment line"
  shows "lexFrom left right LineStart (line @ newline # rest) = lexFrom left right LineStart rest"
  using assms(2)
proof (cases rule: blankOrComment_cases)
  case (comment cs)
  have "newline \<notin> set cs" using assms(1) comment by simp
  then have "dropWhile (\<lambda>c. c \<noteq> newline) (cs @ newline # rest) = newline # rest"
    by (rule dropWhile_until)
  then show ?thesis unfolding comment append_Cons lexFrom_comment by simp
next
  case blank
  then show ?thesis by (rule lexFrom_blank_line)
qed

lemma lexFrom_last_line:
  assumes "newline \<notin> set line" and "blankOrComment line"
  shows "lexFrom left right LineStart line = Some [(tokenEOF, [])]"
  using assms(2)
proof (cases rule: blankOrComment_cases)
  case (comment cs)
  have "\<forall>x \<in> set cs. x \<noteq> newline" using assms(1) comment by auto
  then have d: "dropWhile (\<lambda>c. c \<noteq> newline) cs = []" by (rule dropWhile_all)
  show ?thesis unfolding comment lexFrom_comment d by (simp add: lexFrom_Nil)
next
  case blank
  then show ?thesis by (rule lexFrom_blank_end)
qed

lemma lexFrom_lines:
  "lines \<noteq> [] \<Longrightarrow> \<forall>line \<in> set lines. newline \<notin> set line \<and> blankOrComment line \<Longrightarrow>
     lexFrom left right LineStart (strings_Join lines newline) = Some [(tokenEOF, [])]"
proof (induction lines newline rule: strings_Join.induct)
  case 1
  then show ?case by simp
next
  case (2 p)
  then show ?case by (simp add: lexFrom_last_line)
next
  case (3 p q ps)
  have "lexFrom left right LineStart (p @ newline # strings_Join (q # ps) newline) =
      lexFrom left right LineStart (strings_Join (q # ps) newline)"
    using 3(3) by (intro lexFrom_skip_line) simp_all
  then show ?case using 3 by simp
qed

text \<open>
  Claim C7. An input whose lines are all blank (spaces and tabs only) or comments (starting
  with \<open>#\<close>) yields exactly one token, EndOfInput, and no error, for every
  delimiter configuration.
\<close>
theorem whitespace_and_comments_yield_EOF:
  assumes "whitespaceAndComments input"
  shows "lex input left right = Some [(tokenEOF, [])]"
proof -
  let ?lines = "strings_Split input newline"
  have "?lines \<noteq> []" by (simp add: strings_Split_def splitFrom_nonempty)
  moreover have "\<forall>line \<in> set ?lines. newline \<notin> set line \<and> blankOrComment line"
    using assms Split_elems by (auto simp: whitespaceAndComments_def list_all_iff)
  ultimately have "lexFrom (if left = [] then ''<<'' else left) (if right = [] then ''>>'' else right)
      LineStart (strings_Join ?lines newline) = Some [(tokenEOF, [])]"
    by (rule lexFrom_lines)
  then show ?thesis by (simp only: lex_def Join_Split)
qed

theorem whitespace_and_comments_yield_EOF_witness:
  "whitespaceAndComments (''# line1'' @ [newline] @ ''  '' @ [tab, newline] @ ''#line2'') \<and>
   lex (''# line1'' @ [newline] @ ''  '' @ [tab, newline] @ ''#line2'') [] [] = Some [(tokenEOF, [])]"
proof -
  have w: "whitespaceAndComments (''# line1'' @ [newline] @ ''  '' @ [tab, newline] @ ''#line2'')"
    by (simp add: whitespaceAndComments_def strings_Split_def blankOrComment_def isSpace_def
        newline_def tab_def)
  show ?thesis using w whitespace_and_comments_yield_EOF[OF w, of "[]" "[]"] by simp
qed

lemma wordChar_facts:
  "\<not> isWordChar CHR ''#''" "\<not> isWordChar newline" "\<not> isWordChar dash"
  "\<not> isWordChar CHR '' ''" "\<not> isWordChar tab"
  by (simp_all add: isWordChar_def newline_def dash_def tab_def)

lemma wordChar_not:
  assumes "isWordChar c"
  shows "c \<noteq> CHR ''#''" "c \<noteq> newline" "c \<noteq> dash" "\<not> isSpace c"
  using assms wordChar_facts by (auto simp: isSpace_def)

lemma takeWhile_run:
  "\<forall>c \<in> set xs. P c \<Longrightarrow> rest \<noteq> [] \<longrightarrow> \<not> P (hd rest) \<Longrightarrow>
     takeWhile P (xs @ rest) = xs \<and> dropWhile P (xs @ rest) = rest"
proof (induction xs)
  case Nil
  then show ?case by (cases rest) auto
next
  case (Cons x xs)
  then show ?case by simp
qed

lemma errTrailingDash_text:
  "errTrailingDash =
     ''invalid character U+002D '' @ [CHR 0x27] @ ''-'' @ [CHR 0x27] @ '' at the end of the identifier''"
  by (simp add: errTrailingDash_def quoted_def codepoint_def hexDigit_def dash_def)

lemma scanIdentifier_run:
  assumes "ident \<noteq> []" and "isWordChar (hd ident)" and "\<forall>c \<in> set ident. isIdentChar c"
    and "atTerminator left rest" and "rest \<noteq> [] \<longrightarrow> \<not> isIdentChar (hd rest)"
  shows "scanIdentifier left (ident @ rest) =
           (if last ident = dash then Failed [] errTrailingDash
            else Scanned [(tokenIdentifier, ident)] rest)"
proof -
  obtain c cs where i: "ident = c # cs" using assms(1) by (cases ident) auto
  have w: "isWordChar c" using assms(2) i by simp
  have t: "takeWhile isIdentChar (ident @ rest) = ident"
    and d: "dropWhile isIdentChar (ident @ rest) = rest"
    using takeWhile_run[OF assms(3,5)] by simp_all
  have "scanIdentifier left (ident @ rest) =
      (let ident' = takeWhile isIdentChar (ident @ rest); rest' = dropWhile isIdentChar (ident @ rest)
       in if atTerminator left rest'
          then (if last ident' = dash then Failed [] errTrailingDash
                else Scanned [(tokenIdentifier, ident')] rest')
          else (case rest' of [] \<Rightarrow> Unspecified
                | d # _ \<Rightarrow> Failed [] (errInvalidCharacterInIdentifier d)))"
    unfolding scanIdentifier_def i append_Cons using w by (simp only: list.case simp_thms if_False)
  then show ?thesis unfolding t d Let_def using assms(4) by (simp only: if_True)
qed

lemma lexFrom_tag_name:
  assumes "isWordChar c"
  shows "lexFrom left right LineStart (c # cs) =
     (case scanIdentifier left (c # cs) of
        Failed toks msg \<Rightarrow> Some (toks @ [(tokenError, msg)])
      | Scanned toks rest \<Rightarrow> emit toks (lexFrom left right InsideTag rest)
      | Unspecified \<Rightarrow> None)"
proof -
  have d: "dropWhile isSpace (c # cs) = c # cs" using wordChar_not(4)[OF assms] by simp
  show ?thesis
    apply (subst lexFrom.simps(1))
    apply (simp only: list.case wordChar_not[OF assms] if_False d)
    done
qed

lemma lexFrom_attribute:
  "lexFrom left right InsideTag (dash # cs) =
     (case scanAttribute left cs of
        Failed toks msg \<Rightarrow> Some ((tokenAttrDeclare, [dash]) # toks @ [(tokenError, msg)])
      | Scanned toks rest \<Rightarrow>
          emit ((tokenAttrDeclare, [dash]) # toks) (lexFrom left right InsideTag rest)
      | Unspecified \<Rightarrow> None)"
proof -
  have a: "\<not> isSpace dash" "dash \<noteq> newline"
    by (simp_all add: isSpace_def dash_def newline_def tab_def)
  show ?thesis
    apply (subst lexFrom.simps(2))
    apply (simp only: list.case a if_False if_True simp_thms)
    done
qed

text \<open>
  Claim C8. Let an identifier be a run of word characters and dashes that starts with a word
  character and stands before a terminator. When its last character is a dash the scan fails
  with the message \<open>invalid character U+002D '-' at the end of the identifier\<close>, and the
  Error token ends the token sequence, for a tag name as for an attribute name and for every
  length. When its last character is not a dash the whole run, interior dashes included, is
  one Identifier token.
\<close>
theorem trailing_dash_rejected_interior_dash_accepted:
  assumes "ident \<noteq> []" and "isWordChar (hd ident)" and "\<forall>c \<in> set ident. isIdentChar c"
    and "atTerminator left rest" and "rest \<noteq> [] \<longrightarrow> \<not> isIdentChar (hd rest)"
  shows "(last ident = dash \<longrightarrow>
            scanIdentifier left (ident @ rest) = Failed [] errTrailingDash \<and>
            errTrailingDash = ''invalid character U+002D '' @ [CHR 0x27] @ ''-'' @ [CHR 0x27]
                                @ '' at the end of the identifier'' \<and>
            lexFrom left right LineStart (ident @ rest) = Some [(tokenError, errTrailingDash)] \<and>
            lexFrom left right InsideTag (dash # ident @ rest) =
              Some [(tokenAttrDeclare, [dash]), (tokenError, errTrailingDash)]) \<and>
         (last ident \<noteq> dash \<longrightarrow>
            scanIdentifier left (ident @ rest) = Scanned [(tokenIdentifier, ident)] rest \<and>
            lexFrom left right LineStart (ident @ rest) =
              emit [(tokenIdentifier, ident)] (lexFrom left right InsideTag rest))"
proof -
  obtain c cs where i: "ident = c # cs" using assms(1) by (cases ident) auto
  have w: "isWordChar c" using assms(2) i by simp
  have s: "scanIdentifier left (ident @ rest) =
           (if last ident = dash then Failed [] errTrailingDash
            else Scanned [(tokenIdentifier, ident)] rest)"
    using assms by (rule scanIdentifier_run)
  have l: "lexFrom left right LineStart (ident @ rest) =
     (case scanIdentifier left (ident @ rest) of
        Failed toks msg \<Rightarrow> Some (toks @ [(tokenError, msg)])
      | Scanned toks rest \<Rightarrow> emit toks (lexFrom left right InsideTag rest)
      | Unspecified \<Rightarrow> None)"
    unfolding i append_Cons using w by (rule lexFrom_tag_name)
  have a: "last ident = dash \<Longrightarrow> scanAttribute left (ident @ rest) = Failed [] errTrailingDash"
    using s by (simp add: scanAttribute_def)
  show ?thesis
    using s l a errTrailingDash_text by (simp add: lexFrom_attribute)
qed

theorem trailing_dash_rejected_interior_dash_accepted_witness:
  "lex ''tag-'' [] [] =
     Some [(tokenError, ''invalid character U+002D '' @ [CHR 0x27] @ ''-'' @ [CHR 0x27]
                          @ '' at the end of the identifier'')] \<and>
   scanIdentifier ''<<'' ''tag-1'' = Scanned [(tokenIdentifier, ''tag-1'')] []"
  using trailing_dash_rejected_interior_dash_accepted[of "''tag-''" "''<<''" "[]" "''>>''"]
    trailing_dash_rejected_interior_dash_accepted[of "''tag-1''" "''<<''" "[]" "''>>''"]
  by (simp add: lex_def isWordChar_def isIdentChar_def atTerminator_def dash_def)

lemma Join_foldr:
  "ls \<noteq> [] \<Longrightarrow> strings_Join ls c @ c # tail = foldr (\<lambda>line acc. line @ c # acc) ls tail"
  by (induction ls c rule: strings_Join.induct) simp_all

lemma Join_foldl:
  "foldl (\<lambda>b line. b @ c # line) l ls = strings_Join (l # ls) c"
proof (induction ls arbitrary: l rule: rev_induct)
  case Nil show ?case by simp
next
  case (snoc x xs)
  have "strings_Join (l # xs @ [x]) c = strings_Join (l # xs) c @ c # x"
    by (induction "l # xs" c arbitrary: l xs rule: strings_Join.induct) auto
  then show ?case using snoc by simp
qed

lemma takeWhile_line:
  "newline \<notin> set line \<Longrightarrow>
     takeWhile (\<lambda>c. c \<noteq> newline) (line @ newline # tail) = line \<and>
     dropWhile (\<lambda>c. c \<noteq> newline) (line @ newline # tail) = newline # tail"
  by (induction line) auto

lemma takeWhile_last_line:
  "newline \<notin> set line \<Longrightarrow> rest = [] \<or> hd rest = newline \<Longrightarrow>
     takeWhile (\<lambda>c. c \<noteq> newline) (line @ rest) = line"
proof (induction line)
  case Nil
  then show ?case by (cases rest) auto
next
  case (Cons x xs)
  then show ?case by auto
qed

lemma isCloseLine_exact:
  assumes "right \<noteq> []" and "\<not> isSpace (last right)" and "\<forall>c \<in> set ws. isSpace c"
  shows "isCloseLine right (right @ ws)"
proof -
  have "dropWhile isSpace (rev ws) = []" using assms(3) by (intro dropWhile_all) simp
  moreover have "dropWhile isSpace (rev right) = rev right"
    using assms(1,2) by (cases "rev right") (auto simp: last_rev[symmetric] hd_rev)
  ultimately have "dropWhile isSpace (rev ws @ rev right) = rev right"
    using assms(3) by (simp add: dropWhile_append)
  then show ?thesis by (simp add: isCloseLine_def)
qed

lemma closeLineSearch_close:
  assumes "right \<noteq> []" and "newline \<notin> set right" and "\<not> isSpace (last right)"
    and "\<forall>c \<in> set ws. isSpace c" and "rest = [] \<or> hd rest = newline"
  shows "closeLineSearch right body (right @ ws @ rest) = Some (body, ws @ rest)"
proof -
  have n: "newline \<notin> set (right @ ws)"
    using assms(2,4) newline_not_space by auto
  have t: "takeWhile (\<lambda>c. c \<noteq> newline) ((right @ ws) @ rest) = right @ ws"
    using n assms(5) by (rule takeWhile_last_line)
  have c: "isCloseLine right (right @ ws)" using assms(1,3,4) by (rule isCloseLine_exact)
  show ?thesis
    apply (subst closeLineSearch.simps)
    using t c apply simp
    done
qed

lemma closeLineSearch_lines:
  assumes "right \<noteq> []" and "newline \<notin> set right" and "\<not> isSpace (last right)"
    and "\<forall>c \<in> set ws. isSpace c" and "rest = [] \<or> hd rest = newline"
    and "\<forall>line \<in> set ls. newline \<notin> set line \<and> \<not> isCloseLine right line"
  shows "closeLineSearch right body
           (foldr (\<lambda>line acc. line @ newline # acc) ls (right @ ws @ rest)) =
         Some (foldl (\<lambda>b line. b @ newline # line) body ls, ws @ rest)"
  using assms(6)
proof (induction ls arbitrary: body)
  case Nil
  show ?case using closeLineSearch_close[OF assms(1-5)] by simp
next
  case (Cons l ls)
  let ?tail = "foldr (\<lambda>line acc. line @ newline # acc) ls (right @ ws @ rest)"
  have nl: "newline \<notin> set l" and nc: "\<not> isCloseLine right l" using Cons.prems by simp_all
  have t: "takeWhile (\<lambda>c. c \<noteq> newline) (l @ newline # ?tail) = l"
    and d: "dropWhile (\<lambda>c. c \<noteq> newline) (l @ newline # ?tail) = newline # ?tail"
    using takeWhile_line[OF nl] by simp_all
  have ih: "closeLineSearch right (body @ newline # l) ?tail =
      Some (foldl (\<lambda>b line. b @ newline # line) (body @ newline # l) ls, ws @ rest)"
    using Cons.prems by (intro Cons.IH) simp
  have "closeLineSearch right body (l @ newline # ?tail) =
      closeLineSearch right (body @ newline # l) ?tail"
    apply (subst closeLineSearch.simps)
    apply (simp only: t d nc if_False list.case)
    done
  then show ?case using ih by simp
qed

lemma scanBody_multiline:
  assumes "right \<noteq> []" and "newline \<notin> set right" and "\<not> isSpace (last right)"
    and "lines \<noteq> []"
    and "\<forall>line \<in> set lines. newline \<notin> set line \<and> \<not> isCloseLine right line"
    and "\<forall>c \<in> set sp. isSpace c" and "\<forall>c \<in> set ws. isSpace c"
    and "rest = [] \<or> hd rest = newline"
  shows "scanBody right
           (sp @ newline # strings_Join lines newline @ newline # right @ ws @ rest) =
         Scanned [(tokenNewline, [newline]), (tokenBody, strings_Join lines newline),
                  (tokenNewline, [newline]), (tokenRightDelim, right)] (ws @ rest)"
proof -
  obtain l ls where lines: "lines = l # ls" using assms(4) by (cases lines) auto
  let ?tail = "foldr (\<lambda>line acc. line @ newline # acc) ls (right @ ws @ rest)"
  have x: "strings_Join lines newline @ newline # right @ ws @ rest = l @ newline # ?tail"
    using Join_foldr[OF assms(4), of newline "right @ ws @ rest"] lines by simp
  have nl: "newline \<notin> set l" and nc: "\<not> isCloseLine right l" using assms(5) lines by simp_all
  have t: "takeWhile (\<lambda>c. c \<noteq> newline) (l @ newline # ?tail) = l"
    and d: "dropWhile (\<lambda>c. c \<noteq> newline) (l @ newline # ?tail) = newline # ?tail"
    using takeWhile_line[OF nl] by simp_all
  have ds: "dropWhile isSpace (sp @ newline # l @ newline # ?tail) = newline # l @ newline # ?tail"
    using assms(6) newline_not_space by (rule dropWhile_spaces_then)
  have rest_lines: "\<forall>line \<in> set ls. newline \<notin> set line \<and> \<not> isCloseLine right line"
    using assms(5) lines by simp
  have c: "closeLineSearch right l ?tail = Some (strings_Join lines newline, ws @ rest)"
    using closeLineSearch_lines[OF assms(1,2,3,7,8) rest_lines, of l]
    unfolding Join_foldl lines .
  show ?thesis
    unfolding x scanBody_def ds
    by (simp only: list.case if_True t d nc if_False c option.case prod.case simp_thms)
qed

lemma lexFrom_space:
  assumes "isSpace c"
  shows "lexFrom left right InsideTag (c # cs) =
     emit [(tokenSpace, takeWhile isSpace (c # cs))]
       (lexFrom left right InsideTag (dropWhile isSpace (c # cs)))"
  apply (subst lexFrom.simps(2))
  apply (simp only: list.case assms if_True)
  done

lemma lexFrom_body:
  assumes "\<not> isSpace c" and "c \<noteq> newline" and "c \<noteq> dash" and "prefix left (c # cs)"
  shows "lexFrom left right InsideTag (c # cs) =
     (case scanBody right (drop (length left) (c # cs)) of
        Failed toks msg \<Rightarrow> Some ((tokenLeftDelim, left) # toks @ [(tokenError, msg)])
      | Scanned toks rest \<Rightarrow>
          emit ((tokenLeftDelim, left) # toks)
            (case dropWhile isSpace rest of
               [] \<Rightarrow> Some [(tokenEOF, [])]
             | d # ds \<Rightarrow>
                 if d = newline then emit [(tokenNewline, [d])] (lexFrom left right LineStart ds)
                 else None)
      | Unspecified \<Rightarrow> None)"
  apply (subst lexFrom.simps(2))
  apply (simp only: list.case assms if_False if_True)
  done

lemma tag_header:
  "lexFrom ''<<'' right LineStart (''tag <<'' @ s) =
     emit [(tokenIdentifier, ''tag''), (tokenSpace, '' '')]
       (lexFrom ''<<'' right InsideTag (''<<'' @ s))"
proof -
  have w: "isWordChar CHR ''t''" by (simp add: isWordChar_def)
  have i: "scanIdentifier ''<<'' (''tag'' @ (CHR '' '' # ''<<'' @ s)) =
      (if last ''tag'' = dash then Failed [] errTrailingDash
       else Scanned [(tokenIdentifier, ''tag'')] (CHR '' '' # ''<<'' @ s))"
    by (rule scanIdentifier_run)
       (simp_all add: isWordChar_def isIdentChar_def atTerminator_def isSpace_def dash_def)
  have i': "scanIdentifier ''<<'' (CHR ''t'' # ''ag <<'' @ s) =
      Scanned [(tokenIdentifier, ''tag'')] (CHR '' '' # ''<<'' @ s)"
    using i by (simp add: dash_def)
  have sp: "isSpace CHR '' ''" by (simp add: isSpace_def)
  have nsp: "\<not> isSpace CHR ''<''" by (simp add: isSpace_def tab_def)
  have a: "lexFrom ''<<'' right LineStart (CHR ''t'' # ''ag <<'' @ s) =
      emit [(tokenIdentifier, ''tag'')] (lexFrom ''<<'' right InsideTag (CHR '' '' # ''<<'' @ s))"
    unfolding lexFrom_tag_name[OF w] i' by simp
  have b: "lexFrom ''<<'' right InsideTag (CHR '' '' # ''<<'' @ s) =
      emit [(tokenSpace, '' '')] (lexFrom ''<<'' right InsideTag (''<<'' @ s))"
    unfolding lexFrom_space[OF sp] using sp nsp by simp
  show ?thesis using a b by (simp add: emit_def option.map_comp comp_def)
qed

lemma body_after_delimiter:
  "lexFrom ''<<'' right InsideTag (''<<'' @ s) =
     (case scanBody right s of
        Failed toks msg \<Rightarrow> Some ((tokenLeftDelim, ''<<'') # toks @ [(tokenError, msg)])
      | Scanned toks rest \<Rightarrow>
          emit ((tokenLeftDelim, ''<<'') # toks)
            (case dropWhile isSpace rest of
               [] \<Rightarrow> Some [(tokenEOF, [])]
             | d # ds \<Rightarrow>
                 if d = newline then emit [(tokenNewline, [d])] (lexFrom ''<<'' right LineStart ds)
                 else None)
      | Unspecified \<Rightarrow> None)"
proof -
  have a: "\<not> isSpace CHR ''<''" "CHR ''<'' \<noteq> newline" "CHR ''<'' \<noteq> dash"
    by (simp_all add: isSpace_def tab_def newline_def dash_def)
  have p: "prefix ''<<'' (CHR ''<'' # ''<'' @ s)" by simp
  have "lexFrom ''<<'' right InsideTag (CHR ''<'' # ''<'' @ s) =
     (case scanBody right (drop (length ''<<'') (CHR ''<'' # ''<'' @ s)) of
        Failed toks msg \<Rightarrow> Some ((tokenLeftDelim, ''<<'') # toks @ [(tokenError, msg)])
      | Scanned toks rest \<Rightarrow>
          emit ((tokenLeftDelim, ''<<'') # toks)
            (case dropWhile isSpace rest of
               [] \<Rightarrow> Some [(tokenEOF, [])]
             | d # ds \<Rightarrow>
                 if d = newline then emit [(tokenNewline, [d])] (lexFrom ''<<'' right LineStart ds)
                 else None)
      | Unspecified \<Rightarrow> None)"
    using a p by (rule lexFrom_body)
  then show ?thesis by simp
qed

text \<open>
  Claim C6. In multi-line mode the body ends only at a line that, without its trailing spaces
  and tabs, is the close delimiter. Whatever the content lines hold, delimiters included, as
  long as no line of them is such a closing line, they all go into one BodyText token, joined
  by newlines, followed by Newline and BodyCloseDelimiter; what follows the closing line is
  left for the rest of the scan. With the default delimiters the input
  \<open>tag <<\<close>, content lines, \<open>>>\<close> gives Identifier, Space, BodyOpenDelimiter, Newline,
  BodyText, Newline, BodyCloseDelimiter, EndOfInput.
\<close>
theorem multiline_body_ends_only_at_close_line:
  assumes "right \<noteq> []" and "newline \<notin> set right" and "\<not> isSpace (last right)"
    and "lines \<noteq> []"
    and "\<forall>line \<in> set lines. newline \<notin> set line \<and> \<not> isCloseLine right line"
    and "\<forall>c \<in> set sp. isSpace c" and "\<forall>c \<in> set ws. isSpace c"
    and "rest = [] \<or> hd rest = newline"
  shows "scanBody right
           (sp @ newline # strings_Join lines newline @ newline # right @ ws @ rest) =
         Scanned [(tokenNewline, [newline]), (tokenBody, strings_Join lines newline),
                  (tokenNewline, [newline]), (tokenRightDelim, right)] (ws @ rest) \<and>
         (right = ''>>'' \<and> rest = [] \<longrightarrow>
            lex (''tag <<'' @ sp @ newline # strings_Join lines newline @ newline # ''>>'' @ ws)
              [] [] =
            Some [(tokenIdentifier, ''tag''), (tokenSpace, '' ''), (tokenLeftDelim, ''<<''),
                  (tokenNewline, [newline]), (tokenBody, strings_Join lines newline),
                  (tokenNewline, [newline]), (tokenRightDelim, ''>>''), (tokenEOF, [])])"
proof -
  have b: "scanBody right
           (sp @ newline # strings_Join lines newline @ newline # right @ ws @ rest) =
         Scanned [(tokenNewline, [newline]), (tokenBody, strings_Join lines newline),
                  (tokenNewline, [newline]), (tokenRightDelim, right)] (ws @ rest)"
    using assms by (rule scanBody_multiline)
  have d: "dropWhile isSpace ws = []" using assms(7) by (rule dropWhile_all)
  have "lex (''tag <<'' @ sp @ newline # strings_Join lines newline @ newline # ''>>'' @ ws)
              [] [] =
            Some [(tokenIdentifier, ''tag''), (tokenSpace, '' ''), (tokenLeftDelim, ''<<''),
                  (tokenNewline, [newline]), (tokenBody, strings_Join lines newline),
                  (tokenNewline, [newline]), (tokenRightDelim, ''>>''), (tokenEOF, [])]"
    if r: "right = ''>>''" "rest = []"
  proof -
    have b': "scanBody ''>>''
           (sp @ newline # strings_Join lines newline @ newline # ''>>'' @ ws) =
         Scanned [(tokenNewline, [newline]), (tokenBody, strings_Join lines newline),
                  (tokenNewline, [newline]), (tokenRightDelim, ''>>'')] ws"
      using b unfolding r by simp
    let ?s = "sp @ newline # strings_Join lines newline @ newline # ''>>'' @ ws"
    have "lex (''tag <<'' @ ?s) [] [] = lexFrom ''<<'' ''>>'' LineStart (''tag <<'' @ ?s)"
      by (simp add: lex_def)
    also have "\<dots> = emit [(tokenIdentifier, ''tag''), (tokenSpace, '' '')]
        (lexFrom ''<<'' ''>>'' InsideTag (''<<'' @ ?s))"
      by (rule tag_header)
    also have "lexFrom ''<<'' ''>>'' InsideTag (''<<'' @ ?s) =
        emit [(tokenLeftDelim, ''<<''), (tokenNewline, [newline]),
              (tokenBody, strings_Join lines newline),
              (tokenNewline, [newline]), (tokenRightDelim, ''>>'')] (Some [(tokenEOF, [])])"
      unfolding body_after_delimiter b' by (simp only: scan.case d list.case)
    finally show ?thesis by (simp add: emit_def)
  qed
  then show ?thesis using b by blast
qed

theorem multiline_body_ends_only_at_close_line_witness:
  "lex (''tag <<'' @ [newline] @ ''<<>>'' @ [newline] @ ''>>'') [] [] =
     Some [(tokenIdentifier, ''tag''), (tokenSpace, '' ''), (tokenLeftDelim, ''<<''),
           (tokenNewline, [newline]), (tokenBody, ''<<>>''),
           (tokenNewline, [newline]), (tokenRightDelim, ''>>''), (tokenEOF, [])]"
  using multiline_body_ends_only_at_close_line[of "''>>''" "[''<<>>'']" "[]" "[]" "[]"]
  by (simp add: isCloseLine_def isSpace_def newline_def tab_def)

end
